theory Spec2Isabelle
  imports Main "HOL-Library.Word"
begin

unbundle bit_operations_syntax

section \<open>Extendible hash table (container/hash/extendible_hash_table.cpp)\<close>

text \<open>
  A bucket holds its capacity, its local depth and the list of key/value pairs.
  Buckets are shared between directory slots through \<open>std::shared_ptr\<close>; the model keeps
  them in an explicit store (\<open>heap\<close>, address = position) and the directory holds
  addresses, so that a change of one bucket is seen through every slot that refers to it.
  Field names are the C++ member names without their trailing underscore (with a short
  prefix where the name would clash).
\<close>

record ('k, 'v) Bucket =
  b_size :: nat
  b_depth :: nat
  b_list :: "('k \<times> 'v) list"

record ('k, 'v) ExtendibleHashTable =
  global_depth :: nat
  bucket_size :: nat
  num_buckets :: nat
  dir :: "nat list"
  heap :: "('k, 'v) Bucket list"

definition new_Bucket :: "nat \<Rightarrow> nat \<Rightarrow> ('k, 'v) Bucket" where
  "new_Bucket array_size depth = \<lparr>b_size = array_size, b_depth = depth, b_list = []\<rparr>"

text \<open>
  The header extendible\_hash\_table.h is not part of the sources.
  The constructor body only pushes one bucket; the initial values of \<open>global_depth\<close> (0,
  the directory has \<open>2^global_depth\<close> slots) and \<open>num_buckets\<close> (1) and the inline
  bucket accessors \<open>IsFull\<close>, \<open>GetDepth\<close>, \<open>IncrementDepth\<close>, \<open>GetItems\<close> follow the
  data model of the specification.
\<close>

definition ExtendibleHashTable_init :: "nat \<Rightarrow> ('k, 'v) ExtendibleHashTable" where
  "ExtendibleHashTable_init bsz =
     \<lparr>global_depth = 0, bucket_size = bsz, num_buckets = 1,
      dir = [0], heap = [new_Bucket bsz 0]\<rparr>"

definition IsFull :: "('k, 'v) Bucket \<Rightarrow> bool" where
  "IsFull b = (length (b_list b) = b_size b)"

definition IndexOf :: "('k \<Rightarrow> nat) \<Rightarrow> ('k, 'v) ExtendibleHashTable \<Rightarrow> 'k \<Rightarrow> nat" where
  "IndexOf hash t key = hash key AND (2 ^ global_depth t - 1)"

definition bucket_at :: "('k, 'v) ExtendibleHashTable \<Rightarrow> nat \<Rightarrow> ('k, 'v) Bucket" where
  "bucket_at t i = heap t ! (dir t ! i)"

definition GetLocalDepth :: "('k, 'v) ExtendibleHashTable \<Rightarrow> nat \<Rightarrow> nat" where
  "GetLocalDepth t dir_index = b_depth (bucket_at t dir_index)"

definition GetNumBuckets :: "('k, 'v) ExtendibleHashTable \<Rightarrow> nat" where
  "GetNumBuckets t = num_buckets t"

fun Bucket_Find :: "('k \<times> 'v) list \<Rightarrow> 'k \<Rightarrow> 'v option" where
  "Bucket_Find [] key = None"
| "Bucket_Find ((k, v) # rest) key = (if key = k then Some v else Bucket_Find rest key)"

fun Bucket_Remove :: "('k \<times> 'v) list \<Rightarrow> 'k \<Rightarrow> bool \<times> ('k \<times> 'v) list" where
  "Bucket_Remove [] key = (False, [])"
| "Bucket_Remove ((k, v) # rest) key =
     (if k = key then (True, rest)
      else (case Bucket_Remove rest key of (r, rest') \<Rightarrow> (r, (k, v) # rest')))"

fun Bucket_assign :: "('k \<times> 'v) list \<Rightarrow> 'k \<Rightarrow> 'v \<Rightarrow> ('k \<times> 'v) list option" where
  "Bucket_assign [] key value = None"
| "Bucket_assign ((k, v) # rest) key value =
     (if key = k then Some ((k, value) # rest)
      else (case Bucket_assign rest key value of
              None \<Rightarrow> None
            | Some rest' \<Rightarrow> Some ((k, v) # rest')))"

definition Bucket_Insert :: "('k, 'v) Bucket \<Rightarrow> 'k \<Rightarrow> 'v \<Rightarrow> bool \<times> ('k, 'v) Bucket" where
  "Bucket_Insert b key value =
     (case Bucket_assign (b_list b) key value of
        Some l \<Rightarrow> (True, b\<lparr>b_list := l\<rparr>)
      | None \<Rightarrow>
          if \<not> IsFull b then (True, b\<lparr>b_list := (key, value) # b_list b\<rparr>)
          else (False, b))"

definition Find :: "('k \<Rightarrow> nat) \<Rightarrow> ('k, 'v) ExtendibleHashTable \<Rightarrow> 'k \<Rightarrow> 'v option" where
  "Find hash t key = Bucket_Find (b_list (bucket_at t (IndexOf hash t key))) key"

definition Remove :: "('k \<Rightarrow> nat) \<Rightarrow> ('k, 'v) ExtendibleHashTable \<Rightarrow> 'k
    \<Rightarrow> bool \<times> ('k, 'v) ExtendibleHashTable" where
  "Remove hash t key =
     (let a = dir t ! IndexOf hash t key;
          b = heap t ! a
      in case Bucket_Remove (b_list b) key of
           (r, l) \<Rightarrow> (r, t\<lparr>heap := (heap t)[a := b\<lparr>b_list := l\<rparr>]\<rparr>))"

text \<open>
  The splice loop of \<open>Insert\<close>: entries whose hash has bit \<open>local_depth\<close> clear move to
  the end of the new bucket's list, in order; the others stay.
\<close>

fun splice_items :: "('k \<Rightarrow> nat) \<Rightarrow> nat \<Rightarrow> ('k \<times> 'v) list \<Rightarrow> ('k \<times> 'v) list
    \<Rightarrow> ('k \<times> 'v) list \<times> ('k \<times> 'v) list" where
  "splice_items hash local_depth new_zero_list [] = (new_zero_list, [])"
| "splice_items hash local_depth new_zero_list (it # rest) =
     (if drop_bit local_depth (hash (fst it)) AND 1 = 0
      then splice_items hash local_depth (new_zero_list @ [it]) rest
      else (case splice_items hash local_depth new_zero_list rest of
              (nz, old_one_list) \<Rightarrow> (nz, it # old_one_list)))"

text \<open>
  The directory loop \<open>for (i = hash(key) & (local_mask - 1); i < n; i += local_mask)\<close>
  with \<open>local_mask = 1 << local_depth\<close>.
\<close>

function redirect :: "nat \<Rightarrow> nat \<Rightarrow> nat \<Rightarrow> nat \<Rightarrow> nat list \<Rightarrow> nat list" where
  "redirect i n local_depth new_bucket d =
     (if i < n
      then redirect (i + 2 ^ local_depth) n local_depth new_bucket
             (if drop_bit local_depth i AND 1 = 0 then d[i := new_bucket] else d)
      else d)"
  by pat_completeness auto
termination
  by (relation "measure (\<lambda>(i, n, local_depth, new_bucket, d). n - i)")
     (auto intro!: diff_less_mono2)

text \<open>One pass of the body of \<open>while (dir_[index]->IsFull())\<close>.\<close>

definition Insert_split :: "('k \<Rightarrow> nat) \<Rightarrow> 'k \<Rightarrow> ('k, 'v) ExtendibleHashTable \<Rightarrow> nat
    \<Rightarrow> ('k, 'v) ExtendibleHashTable \<times> nat" where
  "Insert_split hash key t index =
     (let local_depth = b_depth (bucket_at t index);
          local_mask = (2::nat) ^ local_depth;
          t1 = (if local_depth = global_depth t
                then t\<lparr>global_depth := global_depth t + 1,
                       dir := dir t @ take (length (dir t)) (dir t)\<rparr>
                else t);
          a = dir t1 ! index;
          old = heap t1 ! a;
          new_bucket = length (heap t1);
          (new_zero_list, old_one_list) = splice_items hash local_depth [] (b_list old);
          h = (heap t1)[a := old\<lparr>b_depth := b_depth old + 1, b_list := old_one_list\<rparr>]
                @ [(new_Bucket (bucket_size t1) (local_depth + 1))\<lparr>b_list := new_zero_list\<rparr>];
          d = redirect (hash key AND (local_mask - 1)) (length (dir t1)) local_depth
                new_bucket (dir t1);
          t2 = t1\<lparr>num_buckets := num_buckets t1 + 1, dir := d, heap := h\<rparr>
      in (t2, IndexOf hash t2 key))"

text \<open>
  The \<open>while\<close> loop need not end (a bucket of capacity 0 is always full), so it is a
  partial function: \<open>None\<close> stands for a call that does not return.
\<close>

partial_function (option) Insert_while :: "('k \<Rightarrow> nat) \<Rightarrow> 'k \<Rightarrow> ('k, 'v) ExtendibleHashTable
    \<Rightarrow> nat \<Rightarrow> (('k, 'v) ExtendibleHashTable \<times> nat) option" where
  "Insert_while hash key t index =
     (if IsFull (bucket_at t index)
      then (case Insert_split hash key t index of (t', index') \<Rightarrow> Insert_while hash key t' index')
      else Some (t, index))"

declare Insert_while.simps [code]

definition put_bucket :: "('k, 'v) ExtendibleHashTable \<Rightarrow> nat \<Rightarrow> ('k, 'v) Bucket
    \<Rightarrow> ('k, 'v) ExtendibleHashTable" where
  "put_bucket t index b = t\<lparr>heap := (heap t)[dir t ! index := b]\<rparr>"

definition Insert :: "('k \<Rightarrow> nat) \<Rightarrow> ('k, 'v) ExtendibleHashTable \<Rightarrow> 'k \<Rightarrow> 'v
    \<Rightarrow> ('k, 'v) ExtendibleHashTable option" where
  "Insert hash t key value =
     (let index = IndexOf hash t key in
      case Bucket_Insert (bucket_at t index) key value of
        (True, b) \<Rightarrow> Some (put_bucket t index b)
      | (False, _) \<Rightarrow>
          (case Insert_while hash key t index of
             None \<Rightarrow> None
           | Some (t', index') \<Rightarrow>
               Some (put_bucket t' index' (snd (Bucket_Insert (bucket_at t' index') key value)))))"

text \<open>\<open>std::hash<int>\<close> is the identity, converted to \<open>size_t\<close> (64 bits).\<close>

definition std_hash_int :: "int \<Rightarrow> nat" where
  "std_hash_int k = nat (k mod 2 ^ 64)"

text \<open>A run of insertions, as the test driver does them; it returns only if each call does.\<close>

fun Insert_all :: "('k \<Rightarrow> nat) \<Rightarrow> ('k, 'v) ExtendibleHashTable \<Rightarrow> ('k \<times> 'v) list
    \<Rightarrow> ('k, 'v) ExtendibleHashTable option" where
  "Insert_all hash t [] = Some t"
| "Insert_all hash t ((k, v) # kvs) =
     (case Insert hash t k v of None \<Rightarrow> None | Some t' \<Rightarrow> Insert_all hash t' kvs)"


section \<open>Outcomes of calls\<close>

text \<open>
  A call returns a value, or the process aborts on a failed \<open>BUSTUB_ASSERT\<close>, or the call
  does not return (a loop that never ends).
\<close>

datatype 'a outcome = Return 'a | Abort string | Hang

fun bind_outcome :: "'a outcome \<Rightarrow> ('a \<Rightarrow> 'b outcome) \<Rightarrow> 'b outcome" where
  "bind_outcome (Return x) f = f x"
| "bind_outcome (Abort m) f = Abort m"
| "bind_outcome Hang f = Hang"

section \<open>LRU-K replacer (buffer/lru\_k\_replacer.cpp)\<close>

text \<open>
  \<open>size_t\<close> is 64 bits wide: subtraction and the increment and decrement operators wrap
  around. \<open>INT64_MAX\<close> is \<open>2^63 - 1\<close>.
\<close>

definition INT64_MAX :: nat where
  "INT64_MAX = 2 ^ 63 - 1"

definition size_t_sub :: "nat \<Rightarrow> nat \<Rightarrow> nat" where
  "size_t_sub a b = (a + 2 ^ 64 - b mod 2 ^ 64) mod 2 ^ 64"

definition size_t_inc :: "nat \<Rightarrow> nat" where
  "size_t_inc a = (a + 1) mod 2 ^ 64"

definition size_t_dec :: "nat \<Rightarrow> nat" where
  "size_t_dec a = (a + 2 ^ 64 - 1) mod 2 ^ 64"

text \<open>
  \<open>replacer\<close> is the vector \<open>replacer_\<close>: for each frame its list of timestamps (oldest in
  front) and its evictable flag.
\<close>

record LRUKReplacer =
  current_timestamp :: nat
  total_size :: int
  replacer_size :: nat
  replacer_k :: nat
  replacer :: "(nat list \<times> bool) list"

definition LRUKReplacer_init :: "nat \<Rightarrow> nat \<Rightarrow> LRUKReplacer" where
  "LRUKReplacer_init num_frames kk =
     \<lparr>current_timestamp = 0, total_size = int num_frames, replacer_size = 0,
      replacer_k = kk, replacer = replicate num_frames ([], False)\<rparr>"

text \<open>
  The local variables of \<open>Evict\<close>; \<open>frame_id_out\<close> is the content of \<open>*frame_id\<close> and
  \<open>it_j\<close> the position of the iterator \<open>j\<close>.
\<close>

record evict_locals =
  max_interval :: nat
  eariest_time :: nat
  flag :: bool
  frame_id_out :: int
  it_j :: nat

fun Evict_loop :: "nat \<Rightarrow> nat \<Rightarrow> (nat list \<times> bool) list \<Rightarrow> nat \<Rightarrow> evict_locals \<Rightarrow> evict_locals" where
  "Evict_loop kk ct [] i v = v"
| "Evict_loop kk ct (it # rest) i v =
     (if \<not> snd it \<or> fst it = [] then Evict_loop kk ct rest (i + 1) v
      else
        let v1 = v\<lparr>flag := True\<rparr> in
        if length (fst it) < kk then
          (let v2 = v1\<lparr>max_interval := INT64_MAX\<rparr> in
           if hd (fst it) < eariest_time v2
           then Evict_loop kk ct rest (i + 1)
                  (v2\<lparr>frame_id_out := int i, eariest_time := hd (fst it), it_j := i\<rparr>)
           else Evict_loop kk ct rest (i + 1) v2)
        else
          (if size_t_sub ct (hd (fst it)) > max_interval v1
           then Evict_loop kk ct rest (i + 1)
                  (v1\<lparr>frame_id_out := int i, max_interval := size_t_sub ct (hd (fst it)),
                      it_j := i\<rparr>)
           else Evict_loop kk ct rest (i + 1) v1))"

text \<open>
  \<open>Evict r fid\<close>: \<open>fid\<close> is what \<open>*frame_id\<close> holds before the call. The result is the
  returned flag, the content of \<open>*frame_id\<close> afterwards and the new replacer.
\<close>

definition Evict :: "LRUKReplacer \<Rightarrow> int \<Rightarrow> bool \<times> int \<times> LRUKReplacer" where
  "Evict r fid =
     (let v = Evict_loop (replacer_k r) (current_timestamp r) (replacer r) 0
                \<lparr>max_interval = 0, eariest_time = INT64_MAX, flag = False,
                 frame_id_out = fid, it_j = 0\<rparr>
      in if flag v
         then (True, frame_id_out v,
               r\<lparr>replacer := (replacer r)[it_j v := ([], False)],
                 replacer_size := size_t_dec (replacer_size r)\<rparr>)
         else (False, frame_id_out v, r))"

definition RecordAccess :: "LRUKReplacer \<Rightarrow> int \<Rightarrow> LRUKReplacer outcome" where
  "RecordAccess r frame_id =
     (if \<not> (frame_id \<ge> 0 \<and> frame_id < total_size r)
      then Abort ''frame_id is over in the function LRUKReplacer::RecordAccess''
      else
        let j = nat frame_id;
            h = fst (replacer r ! j);
            h1 = (if length h = replacer_k r then tl h else h)
        in Return (r\<lparr>replacer := (replacer r)[j := (h1 @ [current_timestamp r], snd (replacer r ! j))],
                     current_timestamp := size_t_inc (current_timestamp r)\<rparr>))"

definition SetEvictable :: "LRUKReplacer \<Rightarrow> int \<Rightarrow> bool \<Rightarrow> LRUKReplacer outcome" where
  "SetEvictable r frame_id set_evictable =
     (if \<not> (frame_id \<ge> 0 \<and> frame_id < total_size r)
      then Abort ''frame_id is over in the function LRUKReplacer::SetEvictable''
      else
        let j = nat frame_id in
        if fst (replacer r ! j) = [] then Return r
        else
          let r1 = (if set_evictable \<and> \<not> snd (replacer r ! j)
                    then r\<lparr>replacer_size := size_t_inc (replacer_size r)\<rparr> else r);
              r2 = (if \<not> set_evictable \<and> snd (replacer r1 ! j)
                    then r1\<lparr>replacer_size := size_t_dec (replacer_size r1)\<rparr> else r1)
          in Return (r2\<lparr>replacer := (replacer r2)[j := (fst (replacer r2 ! j), set_evictable)]\<rparr>))"

definition Remove_frame :: "LRUKReplacer \<Rightarrow> int \<Rightarrow> LRUKReplacer outcome" where
  "Remove_frame r frame_id =
     (if frame_id < 0 \<or> frame_id \<ge> total_size r then Return r
      else
        let j = nat frame_id in
        if fst (replacer r ! j) \<noteq> [] then
          (if \<not> snd (replacer r ! j)
           then Abort ''trying Remove an unevictable frame in the function LRUReplacer::Remove''
           else Return (r\<lparr>replacer := (replacer r)[j := ([], False)],
                          replacer_size := size_t_dec (replacer_size r)\<rparr>))
        else Return r)"

definition Size :: "LRUKReplacer \<Rightarrow> nat" where
  "Size r = replacer_size r"

text \<open>
  The frames \<open>Evict\<close> considers: marked evictable, with a recorded access. The state of a
  replacer built by the constructor and the operations satisfies \<open>replacer_wf\<close> as long as
  fewer than \<open>2^63\<close> accesses were recorded: every recorded timestamp is older than the
  clock, no history is longer than \<open>k\<close>, and an evictable frame has a recorded access.
\<close>

definition history :: "LRUKReplacer \<Rightarrow> nat \<Rightarrow> nat list" where
  "history r i = fst (replacer r ! i)"

definition candidates :: "LRUKReplacer \<Rightarrow> nat set" where
  "candidates r = {i. i < length (replacer r) \<and> snd (replacer r ! i) \<and> history r i \<noteq> []}"

text \<open>The \<open>K\<close>-th most recent of the recorded accesses (the newest is last).\<close>

definition kth_recent :: "nat \<Rightarrow> nat list \<Rightarrow> nat" where
  "kth_recent kk h = rev h ! (kk - 1)"

definition replacer_wf :: "LRUKReplacer \<Rightarrow> bool" where
  "replacer_wf r \<longleftrightarrow>
     1 \<le> replacer_k r \<and> current_timestamp r < INT64_MAX \<and>
     total_size r = int (length (replacer r)) \<and>
     (\<forall>e \<in> set (replacer r).
        (\<forall>t \<in> set (fst e). t < current_timestamp r) \<and> length (fst e) \<le> replacer_k r
        \<and> (snd e \<longrightarrow> fst e \<noteq> []))"

text \<open>A run of calls on the replacer, stopping at the first abort.\<close>

datatype replacer_call = CallRecordAccess int | CallSetEvictable int bool | CallRemove int

fun run_replacer_call :: "LRUKReplacer \<Rightarrow> replacer_call \<Rightarrow> LRUKReplacer outcome" where
  "run_replacer_call r (CallRecordAccess f) = RecordAccess r f"
| "run_replacer_call r (CallSetEvictable f e) = SetEvictable r f e"
| "run_replacer_call r (CallRemove f) = Remove_frame r f"

fun run_replacer_calls :: "LRUKReplacer \<Rightarrow> replacer_call list \<Rightarrow> LRUKReplacer outcome" where
  "run_replacer_calls r [] = Return r"
| "run_replacer_calls r (c # cs) = bind_outcome (run_replacer_call r c) (\<lambda>r'. run_replacer_calls r' cs)"

text \<open>
  Auxiliary predicates for the analysis of the loop of \<open>Evict\<close>: the two kinds of
  entries it looks at, and what the loop has established after a suffix of the vector
  (\<open>post2\<close>: once an entry with fewer than \<open>k\<close> accesses was seen; \<open>post_lt\<close> and
  \<open>post_full\<close>: from the start, with and without such an entry).
\<close>

definition lt_k :: "nat \<Rightarrow> nat list \<times> bool \<Rightarrow> bool" where
  "lt_k kk e \<longleftrightarrow> snd e \<and> fst e \<noteq> [] \<and> length (fst e) < kk"

definition full_k :: "nat \<Rightarrow> nat list \<times> bool \<Rightarrow> bool" where
  "full_k kk e \<longleftrightarrow> snd e \<and> fst e \<noteq> [] \<and> \<not> length (fst e) < kk"

definition post2 :: "nat \<Rightarrow> (nat list \<times> bool) list \<Rightarrow> nat \<Rightarrow> evict_locals \<Rightarrow> evict_locals \<Rightarrow> bool" where
  "post2 kk rest i v v' \<longleftrightarrow>
     flag v' \<and> max_interval v' = INT64_MAX \<and>
     ((v' = v \<and> (\<forall>e\<in>set rest. lt_k kk e \<longrightarrow> eariest_time v \<le> hd (fst e))) \<or>
      (\<exists>p < length rest. it_j v' = i + p \<and> frame_id_out v' = int (i + p) \<and> lt_k kk (rest ! p)
          \<and> eariest_time v' = hd (fst (rest ! p)) \<and> hd (fst (rest ! p)) < eariest_time v
          \<and> (\<forall>e\<in>set rest. lt_k kk e \<longrightarrow> hd (fst (rest ! p)) \<le> hd (fst e))))"

definition post_lt :: "nat \<Rightarrow> (nat list \<times> bool) list \<Rightarrow> nat \<Rightarrow> evict_locals \<Rightarrow> bool" where
  "post_lt kk rest i v' \<longleftrightarrow>
     flag v' \<and>
     (\<exists>p < length rest. it_j v' = i + p \<and> frame_id_out v' = int (i + p) \<and> lt_k kk (rest ! p)
          \<and> (\<forall>e\<in>set rest. lt_k kk e \<longrightarrow> hd (fst (rest ! p)) \<le> hd (fst e)))"

definition post_full :: "nat \<Rightarrow> nat \<Rightarrow> (nat list \<times> bool) list \<Rightarrow> nat \<Rightarrow> evict_locals \<Rightarrow> evict_locals \<Rightarrow> bool" where
  "post_full kk ct rest i v v' \<longleftrightarrow>
     (flag v' \<longleftrightarrow> flag v \<or> (\<exists>e\<in>set rest. full_k kk e)) \<and>
     ((it_j v' = it_j v \<and> frame_id_out v' = frame_id_out v \<and> max_interval v' = max_interval v
        \<and> (\<forall>e\<in>set rest. full_k kk e \<longrightarrow> ct - hd (fst e) \<le> max_interval v)) \<or>
      (\<exists>p < length rest. it_j v' = i + p \<and> frame_id_out v' = int (i + p) \<and> full_k kk (rest ! p)
          \<and> max_interval v' = ct - hd (fst (rest ! p)) \<and> max_interval v < max_interval v'
          \<and> (\<forall>e\<in>set rest. full_k kk e \<longrightarrow> ct - hd (fst e) \<le> max_interval v')))"

section \<open>Buffer pool manager (buffer/buffer\_pool\_manager\_instance.cpp)\<close>

text \<open>
  A frame holds a page: its bytes, the page id, the pin count and the dirty flag. The
  manager owns the array of frames, the page table (an extendible hash table from page
  ids to frame ids with buckets of size 4), the replacer and the free list. \<open>disk\<close> is the
  content of the disk manager: \<open>WritePage\<close> stores the bytes of a page, \<open>ReadPage\<close> gives
  them back. A frame id taken from the page table or the free list is used as an index
  into \<open>pages\<close> without a check, as the source does.
\<close>

definition BUSTUB_PAGE_SIZE :: nat where
  "BUSTUB_PAGE_SIZE = 4096"

record Page =
  data :: "nat list"
  page_id :: int
  pin_count :: int
  is_dirty :: bool

record BufferPoolManagerInstance =
  pool_size :: nat
  next_page_id :: int
  pages :: "Page list"
  page_table :: "(int, int) ExtendibleHashTable"
  bpm_replacer :: LRUKReplacer
  free_list :: "int list"
  disk :: "int \<Rightarrow> nat list"

definition ResetMemory :: "Page \<Rightarrow> Page" where
  "ResetMemory p = p\<lparr>data := replicate (length (data p)) 0\<rparr>"

definition BufferPoolManagerInstance_init :: "nat \<Rightarrow> nat \<Rightarrow> BufferPoolManagerInstance" where
  "BufferPoolManagerInstance_init ps kk =
     \<lparr>pool_size = ps, next_page_id = 0,
      pages = replicate ps \<lparr>data = replicate BUSTUB_PAGE_SIZE 0, page_id = 0,
                              pin_count = 0, is_dirty = False\<rparr>,
      page_table = ExtendibleHashTable_init 4,
      bpm_replacer = LRUKReplacer_init ps kk,
      free_list = map int [0..<ps],
      disk = (\<lambda>_. replicate BUSTUB_PAGE_SIZE 0)\<rparr>"

definition page_at :: "BufferPoolManagerInstance \<Rightarrow> int \<Rightarrow> Page" where
  "page_at b frame_id = pages b ! nat frame_id"

definition set_page :: "BufferPoolManagerInstance \<Rightarrow> int \<Rightarrow> Page \<Rightarrow> BufferPoolManagerInstance" where
  "set_page b frame_id p = b\<lparr>pages := (pages b)[nat frame_id := p]\<rparr>"

definition WritePage :: "BufferPoolManagerInstance \<Rightarrow> int \<Rightarrow> nat list \<Rightarrow> BufferPoolManagerInstance" where
  "WritePage b pid bytes = b\<lparr>disk := (disk b)(pid := bytes)\<rparr>"

definition table_Insert :: "BufferPoolManagerInstance \<Rightarrow> int \<Rightarrow> int
    \<Rightarrow> BufferPoolManagerInstance outcome" where
  "table_Insert b pid frame_id =
     (case Insert std_hash_int (page_table b) pid frame_id of
        None \<Rightarrow> Hang
      | Some t \<Rightarrow> Return (b\<lparr>page_table := t\<rparr>))"

definition table_Remove :: "BufferPoolManagerInstance \<Rightarrow> int \<Rightarrow> BufferPoolManagerInstance" where
  "table_Remove b pid = b\<lparr>page_table := snd (Remove std_hash_int (page_table b) pid)\<rparr>"

text \<open>\<open>RecordAccess(frame_id)\<close> followed by \<open>SetEvictable(frame_id, false)\<close>.\<close>

definition pin_frame :: "BufferPoolManagerInstance \<Rightarrow> int \<Rightarrow> BufferPoolManagerInstance outcome" where
  "pin_frame b frame_id =
     bind_outcome (RecordAccess (bpm_replacer b) frame_id) (\<lambda>r1.
     bind_outcome (SetEvictable r1 frame_id False) (\<lambda>r2.
     Return (b\<lparr>bpm_replacer := r2\<rparr>)))"

text \<open>
  \<open>NewPgImp b u\<close>: \<open>u\<close> is the indeterminate initial value of the local \<open>frame_id\<close>. The
  result is \<open>None\<close> for \<open>nullptr\<close>, else the new page id and the frame of the page.
\<close>

definition NewPgImp :: "BufferPoolManagerInstance \<Rightarrow> int
    \<Rightarrow> ((int \<times> int) option \<times> BufferPoolManagerInstance) outcome" where
  "NewPgImp b u =
     (if free_list b \<noteq> [] then
        let frame_id = hd (free_list b);
            b1 = b\<lparr>free_list := tl (free_list b)\<rparr>;
            b2 = set_page b1 frame_id ((page_at b1 frame_id)\<lparr>pin_count := 1\<rparr>);
            pid = next_page_id b2;
            b3 = b2\<lparr>next_page_id := next_page_id b2 + 1\<rparr>
        in bind_outcome (table_Insert b3 pid frame_id) (\<lambda>b4.
           bind_outcome (pin_frame b4 frame_id) (\<lambda>b5.
           Return (Some (pid, frame_id),
                   set_page b5 frame_id ((page_at b5 frame_id)\<lparr>page_id := pid\<rparr>))))
      else
        case Evict (bpm_replacer b) u of
          (False, frame_id, r) \<Rightarrow> Return (None, b\<lparr>bpm_replacer := r\<rparr>)
        | (True, frame_id, r) \<Rightarrow>
            let b1 = b\<lparr>bpm_replacer := r\<rparr>;
                pid = next_page_id b1;
                b2 = b1\<lparr>next_page_id := next_page_id b1 + 1\<rparr>;
                b3 = table_Remove b2 (page_id (page_at b2 frame_id))
            in bind_outcome (table_Insert b3 pid frame_id) (\<lambda>b4.
               let b5 = (if is_dirty (page_at b4 frame_id)
                         then WritePage b4 (page_id (page_at b4 frame_id))
                                (data (page_at b4 frame_id))
                         else b4);
                   b6 = set_page b5 frame_id (ResetMemory (page_at b5 frame_id))
               in bind_outcome (pin_frame b6 frame_id) (\<lambda>b7.
                  Return (Some (pid, frame_id),
                          set_page b7 frame_id
                            ((page_at b7 frame_id)\<lparr>pin_count := 1, page_id := pid\<rparr>)))))"

text \<open>\<open>FetchPgImp\<close>: the result is \<open>None\<close> for \<open>nullptr\<close>, else the frame of the page.\<close>

definition FetchPgImp :: "BufferPoolManagerInstance \<Rightarrow> int
    \<Rightarrow> (int option \<times> BufferPoolManagerInstance) outcome" where
  "FetchPgImp b pid =
     (case Find std_hash_int (page_table b) pid of
        Some frame_id \<Rightarrow>
          bind_outcome (pin_frame b frame_id) (\<lambda>b1.
          let p = page_at b1 frame_id
          in Return (Some frame_id,
                     set_page b1 frame_id (p\<lparr>is_dirty := True, pin_count := pin_count p + 1\<rparr>)))
      | None \<Rightarrow>
          if free_list b \<noteq> [] then
            let frame_id = hd (free_list b);
                b1 = b\<lparr>free_list := tl (free_list b)\<rparr>;
                b2 = set_page b1 frame_id
                       ((page_at b1 frame_id)\<lparr>pin_count := 1, page_id := pid,
                                               data := disk b1 pid\<rparr>)
            in bind_outcome (table_Insert b2 pid frame_id) (\<lambda>b3.
               bind_outcome (pin_frame b3 frame_id) (\<lambda>b4.
               Return (Some frame_id, b4)))
          else
            case Evict (bpm_replacer b) (- 1) of
              (False, frame_id, r) \<Rightarrow> Return (None, b\<lparr>bpm_replacer := r\<rparr>)
            | (True, frame_id, r) \<Rightarrow>
                let b1 = b\<lparr>bpm_replacer := r\<rparr>;
                    b2 = table_Remove b1 (page_id (page_at b1 frame_id))
                in bind_outcome (table_Insert b2 pid frame_id) (\<lambda>b3.
                   bind_outcome (pin_frame b3 frame_id) (\<lambda>b4.
                   let b5 = (if is_dirty (page_at b4 frame_id)
                             then WritePage b4 (page_id (page_at b4 frame_id))
                                    (data (page_at b4 frame_id))
                             else b4);
                       p = ResetMemory (page_at b5 frame_id)
                   in Return (Some frame_id,
                              set_page b5 frame_id
                                (p\<lparr>pin_count := pin_count p + 1, page_id := pid,
                                   data := disk b5 pid\<rparr>)))))"

definition UnpinPgImp :: "BufferPoolManagerInstance \<Rightarrow> int \<Rightarrow> bool
    \<Rightarrow> (bool \<times> BufferPoolManagerInstance) outcome" where
  "UnpinPgImp b pid dirty =
     (case Find std_hash_int (page_table b) pid of
        None \<Rightarrow> Return (False, b)
      | Some frame_id \<Rightarrow>
          if pin_count (page_at b frame_id) \<le> 0 then Return (False, b)
          else
            let p = page_at b frame_id;
                p1 = (if \<not> is_dirty p then p\<lparr>is_dirty := dirty\<rparr> else p);
                p2 = p1\<lparr>pin_count := pin_count p1 - 1\<rparr>;
                b1 = set_page b frame_id p2
            in if pin_count p2 = 0
               then bind_outcome (SetEvictable (bpm_replacer b1) frame_id True) (\<lambda>r.
                    Return (True, b1\<lparr>bpm_replacer := r\<rparr>))
               else Return (True, b1))"

definition DeletePgImp :: "BufferPoolManagerInstance \<Rightarrow> int
    \<Rightarrow> (bool \<times> BufferPoolManagerInstance) outcome" where
  "DeletePgImp b pid =
     (case Find std_hash_int (page_table b) pid of
        None \<Rightarrow> Return (True, b)
      | Some frame_id \<Rightarrow>
          if pin_count (page_at b frame_id) > 0 then Return (False, b)
          else
            let b1 = (if is_dirty (page_at b frame_id)
                      then WritePage b (page_id (page_at b frame_id)) (data (page_at b frame_id))
                      else b);
                b2 = set_page b1 frame_id
                       ((ResetMemory (page_at b1 frame_id))\<lparr>is_dirty := False, page_id := 0\<rparr>);
                b3 = table_Remove b2 pid
            in bind_outcome (SetEvictable (bpm_replacer b3) frame_id True) (\<lambda>r1.
               bind_outcome (Remove_frame r1 frame_id) (\<lambda>r2.
               Return (True, b3\<lparr>bpm_replacer := r2, free_list := free_list b3 @ [frame_id]\<rparr>))))"

text \<open>
  The scenario for the dirty bit: a pool of one frame, a new page, unpinned clean, fetched
  again. The result is the dirty flag of the page before and after the fetch.
\<close>

definition fetch_scenario :: "int \<Rightarrow> (bool \<times> bool) outcome" where
  "fetch_scenario u =
     bind_outcome (NewPgImp (BufferPoolManagerInstance_init 1 2) u) (\<lambda>(r, b1).
       case r of
         None \<Rightarrow> Abort ''no page''
       | Some (pid, frame_id) \<Rightarrow>
           bind_outcome (UnpinPgImp b1 pid False) (\<lambda>(ok, b2).
           bind_outcome (FetchPgImp b2 pid) (\<lambda>(g, b3).
             Return (is_dirty (page_at b2 frame_id), is_dirty (page_at b3 frame_id)))))"

text \<open>The pool of one frame after one \<open>NewPgImp\<close>: page 0 is resident and pinned.\<close>

definition one_pinned_page :: BufferPoolManagerInstance where
  "one_pinned_page =
     (case NewPgImp (BufferPoolManagerInstance_init 1 2) 0 of
        Return (Some pf, b) \<Rightarrow> b
      | _ \<Rightarrow> BufferPoolManagerInstance_init 1 2)"

section \<open>Lock manager (concurrency/lock\_manager.cpp)\<close>

datatype LockMode =
  SHARED | EXCLUSIVE | INTENTION_SHARED | INTENTION_EXCLUSIVE | SHARED_INTENTION_EXCLUSIVE

datatype TransactionState = GROWING | SHRINKING | COMMITTED | ABORTED

datatype IsolationLevel = READ_UNCOMMITTED | REPEATABLE_READ | READ_COMMITTED

datatype AbortReason =
  LOCK_ON_SHRINKING | UPGRADE_CONFLICT | LOCK_SHARED_ON_READ_UNCOMMITTED
| TABLE_LOCK_NOT_PRESENT | ATTEMPTED_INTENTION_LOCK_ON_ROW
| TABLE_UNLOCKED_BEFORE_UNLOCKING_ROWS | INCOMPATIBLE_UPGRADE
| ATTEMPTED_UNLOCK_BUT_NO_LOCK_HELD

text \<open>
  A lock request and a request queue, as declared in lock\_manager.h. Table oids and row
  ids are numbers; a table request has no row id.
\<close>

record LockRequest =
  txn_id :: int
  lock_mode :: LockMode
  oid :: nat
  rid :: "nat option"
  granted :: bool

definition INVALID_TXN_ID :: int where
  "INVALID_TXN_ID = - 1"

record LockRequestQueue =
  request_queue :: "LockRequest list"
  upgrading :: int

definition new_LockRequestQueue :: LockRequestQueue where
  "new_LockRequestQueue = \<lparr>request_queue = [], upgrading = INVALID_TXN_ID\<rparr>"

record LockManager =
  table_lock_map :: "nat \<rightharpoonup> LockRequestQueue"
  row_lock_map :: "nat \<rightharpoonup> LockRequestQueue"

text \<open>
  The class \<open>Transaction\<close> (concurrency/transaction.h) is not part of the sources. Its observable state is the id, the isolation level, the state and the lock
  sets per mode: sets of table oids, and for rows a set of row ids per table oid.
\<close>

record Transaction =
  transaction_id :: int
  isolation_level :: IsolationLevel
  txn_state :: TransactionState
  shared_table_lock_set :: "nat set"
  exclusive_table_lock_set :: "nat set"
  intention_shared_table_lock_set :: "nat set"
  intention_exclusive_table_lock_set :: "nat set"
  shared_intention_exclusive_table_lock_set :: "nat set"
  shared_row_lock_set :: "nat \<Rightarrow> nat set"
  exclusive_row_lock_set :: "nat \<Rightarrow> nat set"

definition new_Transaction :: "int \<Rightarrow> IsolationLevel \<Rightarrow> Transaction" where
  "new_Transaction tid lvl =
     \<lparr>transaction_id = tid, isolation_level = lvl, txn_state = GROWING,
      shared_table_lock_set = {}, exclusive_table_lock_set = {},
      intention_shared_table_lock_set = {}, intention_exclusive_table_lock_set = {},
      shared_intention_exclusive_table_lock_set = {},
      shared_row_lock_set = (\<lambda>_. {}), exclusive_row_lock_set = (\<lambda>_. {})\<rparr>"

fun RowLockRemove :: "Transaction \<Rightarrow> LockMode \<Rightarrow> nat \<Rightarrow> nat \<Rightarrow> Transaction" where
  "RowLockRemove txn EXCLUSIVE oi ri =
     txn\<lparr>exclusive_row_lock_set := (exclusive_row_lock_set txn)(oi := exclusive_row_lock_set txn oi - {ri})\<rparr>"
| "RowLockRemove txn SHARED oi ri =
     txn\<lparr>shared_row_lock_set := (shared_row_lock_set txn)(oi := shared_row_lock_set txn oi - {ri})\<rparr>"
| "RowLockRemove txn _ oi ri = txn"

fun TableLockRemove :: "Transaction \<Rightarrow> LockMode \<Rightarrow> nat \<Rightarrow> Transaction" where
  "TableLockRemove txn EXCLUSIVE oi =
     txn\<lparr>exclusive_table_lock_set := exclusive_table_lock_set txn - {oi}\<rparr>"
| "TableLockRemove txn INTENTION_EXCLUSIVE oi =
     txn\<lparr>intention_exclusive_table_lock_set := intention_exclusive_table_lock_set txn - {oi}\<rparr>"
| "TableLockRemove txn SHARED_INTENTION_EXCLUSIVE oi =
     txn\<lparr>shared_intention_exclusive_table_lock_set :=
           shared_intention_exclusive_table_lock_set txn - {oi}\<rparr>"
| "TableLockRemove txn INTENTION_SHARED oi =
     txn\<lparr>intention_shared_table_lock_set := intention_shared_table_lock_set txn - {oi}\<rparr>"
| "TableLockRemove txn SHARED oi =
     txn\<lparr>shared_table_lock_set := shared_table_lock_set txn - {oi}\<rparr>"

fun RowLockAllocate :: "Transaction \<Rightarrow> LockMode \<Rightarrow> nat \<Rightarrow> nat \<Rightarrow> Transaction" where
  "RowLockAllocate txn EXCLUSIVE oi ri =
     txn\<lparr>exclusive_row_lock_set := (exclusive_row_lock_set txn)(oi := insert ri (exclusive_row_lock_set txn oi))\<rparr>"
| "RowLockAllocate txn SHARED oi ri =
     txn\<lparr>shared_row_lock_set := (shared_row_lock_set txn)(oi := insert ri (shared_row_lock_set txn oi))\<rparr>"
| "RowLockAllocate txn _ oi ri = txn"

fun TableLockAllocate :: "Transaction \<Rightarrow> LockMode \<Rightarrow> nat \<Rightarrow> Transaction" where
  "TableLockAllocate txn EXCLUSIVE oi =
     txn\<lparr>exclusive_table_lock_set := insert oi (exclusive_table_lock_set txn)\<rparr>"
| "TableLockAllocate txn SHARED oi =
     txn\<lparr>shared_table_lock_set := insert oi (shared_table_lock_set txn)\<rparr>"
| "TableLockAllocate txn INTENTION_SHARED oi =
     txn\<lparr>intention_shared_table_lock_set := insert oi (intention_shared_table_lock_set txn)\<rparr>"
| "TableLockAllocate txn SHARED_INTENTION_EXCLUSIVE oi =
     txn\<lparr>shared_intention_exclusive_table_lock_set :=
           insert oi (shared_intention_exclusive_table_lock_set txn)\<rparr>"
| "TableLockAllocate txn INTENTION_EXCLUSIVE oi =
     txn\<lparr>intention_exclusive_table_lock_set := insert oi (intention_exclusive_table_lock_set txn)\<rparr>"

definition SetState :: "Transaction \<Rightarrow> IsolationLevel \<Rightarrow> LockMode \<Rightarrow> Transaction" where
  "SetState txn ioslevel lm =
     (if txn_state txn = ABORTED \<or> txn_state txn = COMMITTED then txn
      else if ioslevel = REPEATABLE_READ \<and> (lm = EXCLUSIVE \<or> lm = SHARED)
      then txn\<lparr>txn_state := SHRINKING\<rparr>
      else if lm = EXCLUSIVE then txn\<lparr>txn_state := SHRINKING\<rparr>
      else txn)"

text \<open>\<open>CheckLock held requested\<close>: is the requested mode compatible with a held one?\<close>

definition CheckLock :: "LockMode \<Rightarrow> LockMode \<Rightarrow> bool" where
  "CheckLock held lm =
     (if held = EXCLUSIVE then False
      else if held = SHARED_INTENTION_EXCLUSIVE \<and> lm \<noteq> INTENTION_SHARED then False
      else if held = SHARED \<and> lm \<noteq> SHARED \<and> lm \<noteq> INTENTION_SHARED then False
      else if held = INTENTION_EXCLUSIVE \<and> lm \<noteq> INTENTION_EXCLUSIVE \<and> lm \<noteq> INTENTION_SHARED
      then False
      else if held = INTENTION_SHARED \<and> lm = EXCLUSIVE then False
      else True)"

text \<open>
  \<open>GrantLock\<close>: the first loop compares the requested mode with every granted request; the
  second walks the queue, compares each waiting request with all requests in front of it,
  and stops with true at the first request of the transaction.
\<close>

fun GrantLock_first :: "LockRequest list \<Rightarrow> LockMode \<Rightarrow> bool" where
  "GrantLock_first [] lm = True"
| "GrantLock_first (i # rest) lm =
     (if granted i \<and> \<not> CheckLock (lock_mode i) lm then False else GrantLock_first rest lm)"

fun front_compatible :: "LockRequest \<Rightarrow> LockRequest list \<Rightarrow> bool" where
  "front_compatible i [] = True"
| "front_compatible i (j # front) =
     (if \<not> CheckLock (lock_mode i) (lock_mode j) then False else front_compatible i front)"

fun GrantLock_second :: "LockRequest list \<Rightarrow> LockRequest list \<Rightarrow> int \<Rightarrow> bool" where
  "GrantLock_second front [] tid = False"
| "GrantLock_second front (i # rest) tid =
     (if \<not> granted i \<and> \<not> front_compatible i front then False
      else if txn_id i = tid then True
      else GrantLock_second (front @ [i]) rest tid)"

definition GrantLock :: "LockRequestQueue \<Rightarrow> LockMode \<Rightarrow> int \<Rightarrow> bool" where
  "GrantLock que lm tid =
     (if \<not> GrantLock_first (request_queue que) lm then False
      else GrantLock_second [] (request_queue que) tid)"

text \<open>
  Queue primitives. \<open>find_txn\<close> is \<open>std::find_if\<close> on the transaction id; \<open>erase_first\<close>
  erases the request it found; \<open>erase_txn\<close> is the loop that erases every request of an
  aborted transaction; \<open>set_granted\<close> is \<open>lr->granted_ = true\<close> for the request \<open>lr\<close> of the
  calling transaction (the one request of that transaction in the queue).
\<close>

fun find_txn :: "LockRequest list \<Rightarrow> int \<Rightarrow> LockRequest option" where
  "find_txn [] tid = None"
| "find_txn (r # rest) tid = (if txn_id r = tid then Some r else find_txn rest tid)"

fun find_granted :: "LockRequest list \<Rightarrow> int \<Rightarrow> LockRequest option" where
  "find_granted [] tid = None"
| "find_granted (r # rest) tid =
     (if granted r \<and> txn_id r = tid then Some r else find_granted rest tid)"

fun erase_first :: "LockRequest list \<Rightarrow> int \<Rightarrow> LockRequest list" where
  "erase_first [] tid = []"
| "erase_first (r # rest) tid = (if txn_id r = tid then rest else r # erase_first rest tid)"

fun erase_granted :: "LockRequest list \<Rightarrow> int \<Rightarrow> LockRequest list" where
  "erase_granted [] tid = []"
| "erase_granted (r # rest) tid =
     (if granted r \<and> txn_id r = tid then rest else r # erase_granted rest tid)"

fun erase_txn :: "LockRequest list \<Rightarrow> int \<Rightarrow> LockRequest list" where
  "erase_txn [] tid = []"
| "erase_txn (r # rest) tid =
     (if txn_id r = tid then erase_txn rest tid else r # erase_txn rest tid)"

fun set_granted :: "LockRequest list \<Rightarrow> int \<Rightarrow> LockRequest list" where
  "set_granted [] tid = []"
| "set_granted (r # rest) tid =
     (if txn_id r = tid then r\<lparr>granted := True\<rparr> # set_granted rest tid
      else r # set_granted rest tid)"

text \<open>
  A call either throws a \<open>TransactionAbortException\<close>, or returns, or is left waiting on
  the condition variable of the queue (\<open>Waits upgrade\<close>, with the value of its local
  variable \<open>upgrade\<close>), or dereferences the end iterator of the queue (\<open>Undefined\<close>).
\<close>

datatype lock_result = Throws AbortReason | Returns bool | Waits bool | Undefined

definition abort_with :: "AbortReason \<Rightarrow> Transaction \<Rightarrow> LockManager
    \<Rightarrow> lock_result \<times> Transaction \<times> LockManager" where
  "abort_with reason txn m = (Throws reason, txn\<lparr>txn_state := ABORTED\<rparr>, m)"

definition table_queue :: "LockManager \<Rightarrow> nat \<Rightarrow> LockRequestQueue" where
  "table_queue m oi = (case table_lock_map m oi of None \<Rightarrow> new_LockRequestQueue | Some q \<Rightarrow> q)"

definition row_queue :: "LockManager \<Rightarrow> nat \<Rightarrow> LockRequestQueue" where
  "row_queue m ri = (case row_lock_map m ri of None \<Rightarrow> new_LockRequestQueue | Some q \<Rightarrow> q)"

definition put_table_queue :: "LockManager \<Rightarrow> nat \<Rightarrow> LockRequestQueue \<Rightarrow> LockManager" where
  "put_table_queue m oi q = m\<lparr>table_lock_map := (table_lock_map m)(oi \<mapsto> q)\<rparr>"

definition put_row_queue :: "LockManager \<Rightarrow> nat \<Rightarrow> LockRequestQueue \<Rightarrow> LockManager" where
  "put_row_queue m ri q = m\<lparr>row_lock_map := (row_lock_map m)(ri \<mapsto> q)\<rparr>"

text \<open>
  The body of the loop \<open>while (!GrantLock(..)) { wait ... }\<close> of \<open>LockTable\<close>, entered at
  its test: when the lock can be granted the call completes and returns true, else the
  thread waits.
\<close>

definition LockTable_try :: "LockManager \<Rightarrow> Transaction \<Rightarrow> LockMode \<Rightarrow> nat \<Rightarrow> bool
    \<Rightarrow> lock_result \<times> Transaction \<times> LockManager" where
  "LockTable_try m txn lm oi upgrade =
     (let que = table_queue m oi; tid = transaction_id txn in
      if \<not> GrantLock que lm tid then (Waits upgrade, txn, m)
      else
        let q1 = que\<lparr>request_queue := set_granted (request_queue que) tid\<rparr>;
            txn1 = TableLockAllocate txn lm oi;
            q2 = (if upgrade then q1\<lparr>upgrading := INVALID_TXN_ID\<rparr> else q1)
        in (Returns True, txn1, put_table_queue m oi q2))"

fun TableLockRemove_all :: "Transaction \<Rightarrow> LockRequest list \<Rightarrow> int \<Rightarrow> Transaction" where
  "TableLockRemove_all txn [] tid = txn"
| "TableLockRemove_all txn (r # rest) tid =
     (if txn_id r = tid then TableLockRemove_all (TableLockRemove txn (lock_mode r) (oid r)) rest tid
      else TableLockRemove_all txn rest tid)"

text \<open>
  The thread wakes up from \<open>cv_.wait\<close>: an aborted transaction removes its requests and the
  call returns false; otherwise the loop test is evaluated again.
\<close>

definition LockTable_wake :: "LockManager \<Rightarrow> Transaction \<Rightarrow> LockMode \<Rightarrow> nat \<Rightarrow> bool
    \<Rightarrow> lock_result \<times> Transaction \<times> LockManager" where
  "LockTable_wake m txn lm oi upgrade =
     (let que = table_queue m oi; tid = transaction_id txn in
      if txn_state txn = ABORTED then
        let txn1 = TableLockRemove_all txn (request_queue que) tid;
            q1 = que\<lparr>request_queue := erase_txn (request_queue que) tid\<rparr>;
            q2 = (if upgrading q1 = tid then q1\<lparr>upgrading := INVALID_TXN_ID\<rparr> else q1)
        in (Returns False, txn1, put_table_queue m oi q2)
      else LockTable_try m txn lm oi upgrade)"

definition is_locked :: "Transaction \<Rightarrow> LockMode \<Rightarrow> nat \<Rightarrow> bool" where
  "is_locked txn lm oi =
     (case lm of
        SHARED \<Rightarrow> oi \<in> shared_table_lock_set txn
      | EXCLUSIVE \<Rightarrow> oi \<in> exclusive_table_lock_set txn
      | INTENTION_SHARED \<Rightarrow> oi \<in> intention_shared_table_lock_set txn
      | INTENTION_EXCLUSIVE \<Rightarrow> oi \<in> intention_exclusive_table_lock_set txn
      | SHARED_INTENTION_EXCLUSIVE \<Rightarrow> oi \<in> shared_intention_exclusive_table_lock_set txn)"

text \<open>
  The first step of \<open>LockTable\<close> checks the state of the transaction against the
  isolation level: the call returns false, or throws, or goes on (\<open>None\<close>).
\<close>

definition LockTable_check :: "Transaction \<Rightarrow> LockMode \<Rightarrow> lock_result option" where
  "LockTable_check txn lm =
     (let state = txn_state txn; ioslevel = isolation_level txn in
      if state = ABORTED then Some (Returns False)
      else if ioslevel = READ_UNCOMMITTED \<and>
              (lm = SHARED \<or> lm = INTENTION_SHARED \<or> lm = SHARED_INTENTION_EXCLUSIVE)
      then Some (Throws LOCK_SHARED_ON_READ_UNCOMMITTED)
      else if state = SHRINKING \<and> (ioslevel = REPEATABLE_READ \<or> ioslevel = READ_UNCOMMITTED)
      then Some (Throws LOCK_ON_SHRINKING)
      else if state = SHRINKING \<and> ioslevel = READ_COMMITTED \<and> lm \<noteq> SHARED
              \<and> lm \<noteq> INTENTION_SHARED
      then Some (Throws LOCK_ON_SHRINKING)
      else None)"

text \<open>The test of the third step that rejects an upgrade.\<close>

definition incompatible_upgrade :: "Transaction \<Rightarrow> LockMode \<Rightarrow> nat \<Rightarrow> bool" where
  "incompatible_upgrade txn lm oi =
     (let l_is = is_locked txn INTENTION_SHARED oi;
          l_s = is_locked txn SHARED oi;
          l_ix = is_locked txn INTENTION_EXCLUSIVE oi;
          l_six = is_locked txn SHARED_INTENTION_EXCLUSIVE oi
      in (\<not> l_is \<or> lm = INTENTION_SHARED) \<and>
         (\<not> l_s \<or> (lm \<noteq> EXCLUSIVE \<and> lm \<noteq> SHARED_INTENTION_EXCLUSIVE)) \<and>
         (\<not> l_ix \<or> (lm \<noteq> EXCLUSIVE \<and> lm \<noteq> SHARED_INTENTION_EXCLUSIVE)) \<and>
         (\<not> l_six \<or> lm \<noteq> EXCLUSIVE))"

text \<open>\<open>LockTable\<close> up to its first wait.\<close>

definition LockTable :: "LockManager \<Rightarrow> Transaction \<Rightarrow> LockMode \<Rightarrow> nat
    \<Rightarrow> lock_result \<times> Transaction \<times> LockManager" where
  "LockTable m txn lm oi =
     (case LockTable_check txn lm of
        Some (Throws reason) \<Rightarrow> abort_with reason txn m
      | Some res \<Rightarrow> (res, txn, m)
      | None \<Rightarrow>
        let tid = transaction_id txn;
            que = table_queue m oi;
            m1 = put_table_queue m oi que
        in case find_txn (request_queue que) tid of
             None \<Rightarrow>
               let lr = \<lparr>txn_id = tid, lock_mode = lm, oid = oi, rid = None, granted = False\<rparr>;
                   q1 = que\<lparr>request_queue := request_queue que @ [lr]\<rparr>
               in LockTable_try (put_table_queue m1 oi q1) txn lm oi False
           | Some it \<Rightarrow>
               if lock_mode it = lm then (Returns True, txn, m1)
               else if upgrading que \<noteq> INVALID_TXN_ID \<and> upgrading que \<noteq> tid
               then abort_with UPGRADE_CONFLICT txn m1
               else if incompatible_upgrade txn lm oi
               then abort_with INCOMPATIBLE_UPGRADE txn m1
               else
                 let txn1 = TableLockRemove txn (lock_mode it) oi;
                     lr = \<lparr>txn_id = tid, lock_mode = lm, oid = oi, rid = None,
                           granted = False\<rparr>;
                     q1 = que\<lparr>upgrading := tid,
                              request_queue := erase_first (request_queue que) tid @ [lr]\<rparr>
                 in LockTable_try (put_table_queue m1 oi q1) txn1 lm oi True)"

definition UnlockTable :: "LockManager \<Rightarrow> Transaction \<Rightarrow> nat
    \<Rightarrow> lock_result \<times> Transaction \<times> LockManager" where
  "UnlockTable m txn oi =
     (case table_lock_map m oi of
        None \<Rightarrow> abort_with ATTEMPTED_UNLOCK_BUT_NO_LOCK_HELD txn m
      | Some que \<Rightarrow>
          let tid = transaction_id txn in
          if exclusive_row_lock_set txn oi \<noteq> {}
          then abort_with TABLE_UNLOCKED_BEFORE_UNLOCKING_ROWS txn m
          else if shared_row_lock_set txn oi \<noteq> {}
          then abort_with TABLE_UNLOCKED_BEFORE_UNLOCKING_ROWS txn m
          else
            case find_granted (request_queue que) tid of
              None \<Rightarrow> abort_with ATTEMPTED_UNLOCK_BUT_NO_LOCK_HELD txn m
            | Some it \<Rightarrow>
                let lm = lock_mode it;
                    txn1 = SetState txn (isolation_level txn) lm;
                    q1 = (if upgrading que \<noteq> INVALID_TXN_ID \<and> upgrading que = tid
                          then que\<lparr>upgrading := INVALID_TXN_ID\<rparr> else que);
                    q2 = q1\<lparr>request_queue := erase_granted (request_queue q1) tid\<rparr>;
                    txn2 = TableLockRemove txn1 lm oi
                in (Returns True, txn2, put_table_queue m oi q2))"

text \<open>The row locks: the queue of a row is found by the row id alone.\<close>

definition LockRow_try :: "LockManager \<Rightarrow> Transaction \<Rightarrow> LockMode \<Rightarrow> nat \<Rightarrow> nat \<Rightarrow> bool
    \<Rightarrow> lock_result \<times> Transaction \<times> LockManager" where
  "LockRow_try m txn lm oi ri upgrade =
     (let que = row_queue m ri; tid = transaction_id txn in
      if \<not> GrantLock que lm tid then (Waits upgrade, txn, m)
      else
        let q1 = que\<lparr>request_queue := set_granted (request_queue que) tid\<rparr>;
            q2 = (if upgrade then q1\<lparr>upgrading := tid\<rparr> else q1);
            txn1 = RowLockAllocate txn lm oi ri
        in (Returns True, txn1, put_row_queue m ri q2))"

fun RowLockRemove_all :: "Transaction \<Rightarrow> LockRequest list \<Rightarrow> int \<Rightarrow> nat \<Rightarrow> Transaction" where
  "RowLockRemove_all txn [] tid ri = txn"
| "RowLockRemove_all txn (r # rest) tid ri =
     (if txn_id r = tid
      then RowLockRemove_all (RowLockRemove txn (lock_mode r) (oid r) ri) rest tid ri
      else RowLockRemove_all txn rest tid ri)"

definition LockRow_wake :: "LockManager \<Rightarrow> Transaction \<Rightarrow> LockMode \<Rightarrow> nat \<Rightarrow> nat \<Rightarrow> bool
    \<Rightarrow> lock_result \<times> Transaction \<times> LockManager" where
  "LockRow_wake m txn lm oi ri upgrade =
     (let que = row_queue m ri; tid = transaction_id txn in
      if txn_state txn = ABORTED then
        let txn1 = RowLockRemove_all txn (request_queue que) tid ri;
            q1 = que\<lparr>request_queue := erase_txn (request_queue que) tid\<rparr>;
            q2 = (if upgrading q1 = tid then q1\<lparr>upgrading := INVALID_TXN_ID\<rparr> else q1)
        in (Returns False, txn1, put_row_queue m ri q2)
      else LockRow_try m txn lm oi ri upgrade)"

text \<open>The first step of \<open>LockRow\<close>: the table lock, the mode and the isolation level.\<close>

definition LockRow_check :: "Transaction \<Rightarrow> LockMode \<Rightarrow> nat \<Rightarrow> lock_result option" where
  "LockRow_check txn lm oi =
     (let state = txn_state txn; ioslevel = isolation_level txn;
          l_is = is_locked txn INTENTION_SHARED oi;
          l_s = is_locked txn SHARED oi;
          l_ix = is_locked txn INTENTION_EXCLUSIVE oi;
          l_six = is_locked txn SHARED_INTENTION_EXCLUSIVE oi;
          l_x = is_locked txn EXCLUSIVE oi
      in
      if state = ABORTED then Some (Returns False)
      else if lm = SHARED \<and> \<not> (l_is \<or> l_s \<or> l_ix \<or> l_six \<or> l_x)
      then Some (Throws TABLE_LOCK_NOT_PRESENT)
      else if lm = EXCLUSIVE \<and> \<not> (l_x \<or> l_ix \<or> l_six)
      then Some (Throws TABLE_LOCK_NOT_PRESENT)
      else if lm \<noteq> SHARED \<and> lm \<noteq> EXCLUSIVE
      then Some (Throws ATTEMPTED_INTENTION_LOCK_ON_ROW)
      else if ioslevel = READ_UNCOMMITTED \<and> lm = SHARED
      then Some (Throws LOCK_SHARED_ON_READ_UNCOMMITTED)
      else if state = SHRINKING \<and> (ioslevel = REPEATABLE_READ \<or> ioslevel = READ_UNCOMMITTED)
      then Some (Throws LOCK_ON_SHRINKING)
      else if state = SHRINKING \<and> ioslevel = READ_COMMITTED \<and> lm \<noteq> SHARED
      then Some (Throws LOCK_ON_SHRINKING)
      else None)"

definition LockRow :: "LockManager \<Rightarrow> Transaction \<Rightarrow> LockMode \<Rightarrow> nat \<Rightarrow> nat
    \<Rightarrow> lock_result \<times> Transaction \<times> LockManager" where
  "LockRow m txn lm oi ri =
     (case LockRow_check txn lm oi of
        Some (Throws reason) \<Rightarrow> abort_with reason txn m
      | Some res \<Rightarrow> (res, txn, m)
      | None \<Rightarrow>
        let tid = transaction_id txn;
            que = row_queue m ri;
            m1 = put_row_queue m ri que
        in case find_txn (request_queue que) tid of
             None \<Rightarrow>
               let lr = \<lparr>txn_id = tid, lock_mode = lm, oid = oi, rid = Some ri, granted = False\<rparr>;
                   q1 = que\<lparr>request_queue := request_queue que @ [lr]\<rparr>
               in LockRow_try (put_row_queue m1 ri q1) txn lm oi ri False
           | Some it \<Rightarrow>
               if lock_mode it = lm then (Returns True, txn, m1)
               else if upgrading que \<noteq> INVALID_TXN_ID \<and> upgrading que \<noteq> tid
               then abort_with UPGRADE_CONFLICT txn m1
               else if lm \<noteq> EXCLUSIVE \<or> ri \<notin> shared_row_lock_set txn oi
               then abort_with INCOMPATIBLE_UPGRADE txn m1
               else
                 let txn1 = RowLockRemove txn (lock_mode it) oi ri;
                     lr = \<lparr>txn_id = tid, lock_mode = lm, oid = oi, rid = Some ri,
                           granted = False\<rparr>;
                     q1 = que\<lparr>upgrading := tid,
                              request_queue := erase_first (request_queue que) tid @ [lr]\<rparr>
                 in LockRow_try (put_row_queue m1 ri q1) txn1 lm oi ri True)"

definition UnlockRow :: "LockManager \<Rightarrow> Transaction \<Rightarrow> nat \<Rightarrow> nat
    \<Rightarrow> lock_result \<times> Transaction \<times> LockManager" where
  "UnlockRow m txn oi ri =
     (case row_lock_map m ri of
        None \<Rightarrow> abort_with ATTEMPTED_UNLOCK_BUT_NO_LOCK_HELD txn m
      | Some que \<Rightarrow>
          let tid = transaction_id txn in
          case find_granted (request_queue que) tid of
            None \<Rightarrow>
              if txn_state txn \<noteq> ABORTED \<and> txn_state txn \<noteq> COMMITTED
              then abort_with ATTEMPTED_UNLOCK_BUT_NO_LOCK_HELD txn m
              else (Undefined, txn, m)
          | Some it \<Rightarrow>
              let lm = lock_mode it;
                  txn1 = SetState txn (isolation_level txn) lm;
                  q1 = (if upgrading que \<noteq> INVALID_TXN_ID \<and> upgrading que = tid
                        then que\<lparr>upgrading := INVALID_TXN_ID\<rparr> else que);
                  q2 = q1\<lparr>request_queue := erase_granted (request_queue q1) tid\<rparr>;
                  txn2 = RowLockRemove txn1 lm oi ri
              in (Returns True, txn2, put_row_queue m ri q2))"

text \<open>
  The lock manager with its transactions and threads. Each transaction is run by one
  thread; \<open>waiting\<close> records the call a thread is blocked in. A step is a call of one of
  the four operations by a thread that is not blocked, the wake-up of a blocked thread
  (by a notification or spuriously), or a change of a transaction's state from outside
  (the deadlock detector and the transaction manager set \<open>ABORTED\<close> and \<open>COMMITTED\<close>).
  A call with undefined behaviour has no successor state.
\<close>

datatype pending = WaitTable LockMode nat bool | WaitRow LockMode nat nat bool

record world =
  lock_manager :: LockManager
  txns :: "int \<Rightarrow> Transaction"
  waiting :: "int \<Rightarrow> pending option"

definition initial_world :: "(int \<Rightarrow> IsolationLevel) \<Rightarrow> world" where
  "initial_world lvl =
     \<lparr>lock_manager = \<lparr>table_lock_map = Map.empty, row_lock_map = Map.empty\<rparr>,
      txns = (\<lambda>t. new_Transaction t (lvl t)),
      waiting = (\<lambda>_. None)\<rparr>"

fun finish :: "world \<Rightarrow> int \<Rightarrow> (bool \<Rightarrow> pending) \<Rightarrow> lock_result \<times> Transaction \<times> LockManager
    \<Rightarrow> world" where
  "finish w t p (res, txn, m) =
     w\<lparr>lock_manager := m, txns := (txns w)(t := txn),
       waiting := (waiting w)(t := (case res of Waits u \<Rightarrow> Some (p u) | _ \<Rightarrow> None))\<rparr>"

definition do_lock_table :: "world \<Rightarrow> int \<Rightarrow> LockMode \<Rightarrow> nat \<Rightarrow> world" where
  "do_lock_table w t lm oi =
     finish w t (WaitTable lm oi) (LockTable (lock_manager w) (txns w t) lm oi)"

definition do_wake_table :: "world \<Rightarrow> int \<Rightarrow> LockMode \<Rightarrow> nat \<Rightarrow> bool \<Rightarrow> world" where
  "do_wake_table w t lm oi u =
     finish w t (WaitTable lm oi) (LockTable_wake (lock_manager w) (txns w t) lm oi u)"

definition do_unlock_table :: "world \<Rightarrow> int \<Rightarrow> nat \<Rightarrow> world" where
  "do_unlock_table w t oi =
     finish w t (WaitTable SHARED oi) (UnlockTable (lock_manager w) (txns w t) oi)"

definition do_lock_row :: "world \<Rightarrow> int \<Rightarrow> LockMode \<Rightarrow> nat \<Rightarrow> nat \<Rightarrow> world" where
  "do_lock_row w t lm oi ri =
     finish w t (WaitRow lm oi ri) (LockRow (lock_manager w) (txns w t) lm oi ri)"

definition do_wake_row :: "world \<Rightarrow> int \<Rightarrow> LockMode \<Rightarrow> nat \<Rightarrow> nat \<Rightarrow> bool \<Rightarrow> world" where
  "do_wake_row w t lm oi ri u =
     finish w t (WaitRow lm oi ri) (LockRow_wake (lock_manager w) (txns w t) lm oi ri u)"

definition do_unlock_row :: "world \<Rightarrow> int \<Rightarrow> nat \<Rightarrow> nat \<Rightarrow> world" where
  "do_unlock_row w t oi ri =
     finish w t (WaitRow SHARED oi ri) (UnlockRow (lock_manager w) (txns w t) oi ri)"

definition do_set_state :: "world \<Rightarrow> int \<Rightarrow> TransactionState \<Rightarrow> world" where
  "do_set_state w t s = w\<lparr>txns := (txns w)(t := (txns w t)\<lparr>txn_state := s\<rparr>)\<rparr>"

inductive step :: "world \<Rightarrow> world \<Rightarrow> bool" where
  lock_table:
    "waiting w t = None \<Longrightarrow> step w (do_lock_table w t lm oi)"
| wake_table:
    "waiting w t = Some (WaitTable lm oi u) \<Longrightarrow> step w (do_wake_table w t lm oi u)"
| unlock_table:
    "waiting w t = None \<Longrightarrow> step w (do_unlock_table w t oi)"
| lock_row:
    "waiting w t = None \<Longrightarrow> step w (do_lock_row w t lm oi ri)"
| wake_row:
    "waiting w t = Some (WaitRow lm oi ri u) \<Longrightarrow> step w (do_wake_row w t lm oi ri u)"
| unlock_row:
    "waiting w t = None \<Longrightarrow>
     fst (UnlockRow (lock_manager w) (txns w t) oi ri) \<noteq> Undefined \<Longrightarrow>
     step w (do_unlock_row w t oi ri)"
| set_state:
    "step w (do_set_state w t s)"

inductive reachable :: "world \<Rightarrow> bool" where
  start: "reachable (initial_world lvl)"
| next_step: "reachable w \<Longrightarrow> step w w' \<Longrightarrow> reachable w'"

text \<open>
  The compatibility matrix in the words of the specification: IS conflicts with X; S with
  X, IX, SIX; IX with S, X, SIX; SIX with all but IS; X with everything.
\<close>

fun conflicts :: "LockMode \<Rightarrow> LockMode \<Rightarrow> bool" where
  "conflicts INTENTION_SHARED b = (b = EXCLUSIVE)"
| "conflicts SHARED b = (b = EXCLUSIVE \<or> b = INTENTION_EXCLUSIVE \<or> b = SHARED_INTENTION_EXCLUSIVE)"
| "conflicts INTENTION_EXCLUSIVE b =
     (b = SHARED \<or> b = EXCLUSIVE \<or> b = SHARED_INTENTION_EXCLUSIVE)"
| "conflicts SHARED_INTENTION_EXCLUSIVE b = (b \<noteq> INTENTION_SHARED)"
| "conflicts EXCLUSIVE b = True"

text \<open>No two granted requests at different places of a queue have conflicting modes.\<close>

definition granted_compatible :: "LockRequest list \<Rightarrow> bool" where
  "granted_compatible rq \<longleftrightarrow>
     (\<forall>i < length rq. \<forall>j < length rq.
        i \<noteq> j \<and> granted (rq ! i) \<and> granted (rq ! j)
        \<longrightarrow> \<not> conflicts (lock_mode (rq ! i)) (lock_mode (rq ! j)))"

definition queue_ok :: "LockRequest list \<Rightarrow> bool" where
  "queue_ok rq \<longleftrightarrow>
     distinct (map txn_id rq) \<and>
     (\<forall>r1 \<in> set rq. \<forall>r2 \<in> set rq.
        granted r1 \<and> granted r2 \<and> txn_id r1 \<noteq> txn_id r2
        \<longrightarrow> CheckLock (lock_mode r1) (lock_mode r2))"

definition has_request :: "LockRequest list \<Rightarrow> int \<Rightarrow> LockMode \<Rightarrow> bool" where
  "has_request rq t lm \<longleftrightarrow> (\<exists>r \<in> set rq. txn_id r = t \<and> lock_mode r = lm)"

definition world_inv :: "world \<Rightarrow> bool" where
  "world_inv w \<longleftrightarrow>
     (\<forall>oi q. table_lock_map (lock_manager w) oi = Some q \<longrightarrow> queue_ok (request_queue q)) \<and>
     (\<forall>ri q. row_lock_map (lock_manager w) ri = Some q \<longrightarrow> queue_ok (request_queue q)) \<and>
     (\<forall>t. transaction_id (txns w t) = t) \<and>
     (\<forall>t lm oi u. waiting w t = Some (WaitTable lm oi u)
         \<longrightarrow> has_request (request_queue (table_queue (lock_manager w) oi)) t lm) \<and>
     (\<forall>t lm oi ri u. waiting w t = Some (WaitRow lm oi ri u)
         \<longrightarrow> has_request (request_queue (row_queue (lock_manager w) ri)) t lm)"

text \<open>
  What a call of transaction \<open>t\<close> on the queue of table \<open>oi\<close> (of row \<open>oi\<close>) does to the
  lock manager: the other queues stay, the queue stays well formed and keeps the requests
  of the other transactions.
\<close>

definition table_effect :: "int \<Rightarrow> nat \<Rightarrow> LockManager \<Rightarrow> LockManager \<Rightarrow> bool" where
  "table_effect t oi m m' \<longleftrightarrow>
     row_lock_map m' = row_lock_map m \<and>
     (\<forall>o'. o' \<noteq> oi \<longrightarrow> table_lock_map m' o' = table_lock_map m o') \<and>
     queue_ok (request_queue (table_queue m' oi)) \<and>
     (\<forall>r \<in> set (request_queue (table_queue m oi)).
        txn_id r \<noteq> t \<longrightarrow> r \<in> set (request_queue (table_queue m' oi)))"

definition row_effect :: "int \<Rightarrow> nat \<Rightarrow> LockManager \<Rightarrow> LockManager \<Rightarrow> bool" where
  "row_effect t oi m m' \<longleftrightarrow>
     table_lock_map m' = table_lock_map m \<and>
     (\<forall>o'. o' \<noteq> oi \<longrightarrow> row_lock_map m' o' = row_lock_map m o') \<and>
     queue_ok (request_queue (row_queue m' oi)) \<and>
     (\<forall>r \<in> set (request_queue (row_queue m oi)).
        txn_id r \<noteq> t \<longrightarrow> r \<in> set (request_queue (row_queue m' oi)))"


text \<open>
  Two scenarios. In \<open>two_holders\<close> transaction 1 holds IS and transaction 2 holds IX on
  table 7. In \<open>aborted_upgrade\<close> transaction 1 holds IX on table 7 and X on row 3 of it,
  transaction 2 holds IS on the table, transaction 1 asks for X on the table (an upgrade)
  and waits, is aborted by the deadlock detector, wakes up and leaves the queue: it then
  holds a row lock of table 7 and no lock on the table.
\<close>

definition two_holders :: world where
  "two_holders =
     do_lock_table
       (do_lock_table (initial_world (\<lambda>_. REPEATABLE_READ)) 1 INTENTION_SHARED 7)
       2 INTENTION_EXCLUSIVE 7"

definition aborted_upgrade_1 :: world where
  "aborted_upgrade_1 =
     do_lock_table (initial_world (\<lambda>_. REPEATABLE_READ)) 1 INTENTION_EXCLUSIVE 7"

definition aborted_upgrade_2 :: world where
  "aborted_upgrade_2 = do_lock_row aborted_upgrade_1 1 EXCLUSIVE 7 3"

definition aborted_upgrade_3 :: world where
  "aborted_upgrade_3 = do_lock_table aborted_upgrade_2 2 INTENTION_SHARED 7"

definition aborted_upgrade_4 :: world where
  "aborted_upgrade_4 = do_lock_table aborted_upgrade_3 1 EXCLUSIVE 7"

definition aborted_upgrade_5 :: world where
  "aborted_upgrade_5 = do_set_state aborted_upgrade_4 1 ABORTED"

definition aborted_upgrade :: world where
  "aborted_upgrade = do_wake_table aborted_upgrade_5 1 EXCLUSIVE 7 True"
section \<open>Lock manager: the deadlock detector's waits-for graph\<close>

text \<open>
  \<open>waits_for_\<close> is a \<open>std::map<txn_id_t, std::set<txn_id_t>>\<close>: an association list with
  strictly ascending keys, each value an ascending list without duplicates, which is the
  order the iterators of both containers follow.
\<close>

type_synonym waits_for = "(int \<times> int list) list"

text \<open>\<open>std::set::emplace\<close>.\<close>

fun set_emplace :: "int \<Rightarrow> int list \<Rightarrow> int list" where
  "set_emplace x [] = [x]"
| "set_emplace x (y # ys) =
     (if x < y then x # y # ys else if x = y then y # ys else y # set_emplace x ys)"

text \<open>
  \<open>std::map::operator[]\<close>: a key that is absent is inserted with an empty set. The lookup
  itself is \<open>map_get\<close> on the map so extended.
\<close>

fun map_index :: "waits_for \<Rightarrow> int \<Rightarrow> waits_for" where
  "map_index [] k = [(k, [])]"
| "map_index ((k', v) # g) k =
     (if k < k' then (k, []) # (k', v) # g
      else if k = k' then (k', v) # g
      else (k', v) # map_index g k)"

definition map_get :: "waits_for \<Rightarrow> int \<Rightarrow> int list" where
  "map_get g k = (case map_of g k of None \<Rightarrow> [] | Some v \<Rightarrow> v)"

definition AddEdge :: "waits_for \<Rightarrow> int \<Rightarrow> int \<Rightarrow> waits_for" where
  "AddEdge g t1 t2 =
     map (\<lambda>(k, v). if k = t1 then (k, set_emplace t2 v) else (k, v)) (map_index g t1)"

text \<open>
  \<open>CreateGraph\<close>: in each queue, an edge from every request that is not granted to every
  request that is. The row queues come first, then the table queues, each in the order of
  the iteration over the \<open>unordered_map\<close>, which is given here by the two lists.
\<close>

definition CreateGraph_queue :: "waits_for \<Rightarrow> LockRequestQueue \<Rightarrow> waits_for" where
  "CreateGraph_queue g que =
     fold (\<lambda>i g1. fold (\<lambda>j g2. if \<not> granted i \<and> granted j
                                 then AddEdge g2 (txn_id i) (txn_id j) else g2)
                        (request_queue que) g1)
          (request_queue que) g"

definition CreateGraph :: "LockRequestQueue list \<Rightarrow> LockRequestQueue list \<Rightarrow> waits_for
    \<Rightarrow> waits_for" where
  "CreateGraph row_queues table_queues g =
     fold (\<lambda>que g1. CreateGraph_queue g1 que) table_queues
       (fold (\<lambda>que g1. CreateGraph_queue g1 que) row_queues g)"

text \<open>\<open>std::unordered_set::emplace\<close>, the set kept as a list without duplicates.\<close>

definition uset_emplace :: "int \<Rightarrow> int list \<Rightarrow> int list" where
  "uset_emplace x xs = (if x \<in> set xs then xs else xs @ [x])"

text \<open>
  The lambda \<open>dfs\<close> of \<open>HasCycle\<close> and the \<open>std::any_of\<close> over the successors of \<open>now\<close>.
  The state is \<open>(txn_set, tmp, waits_for_)\<close>; the first argument bounds the depth of the
  recursion, \<open>None\<close> says that the bound was reached.
\<close>

type_synonym dfs_state = "int list \<times> int list \<times> waits_for"

fun dfs :: "nat \<Rightarrow> int \<Rightarrow> dfs_state \<Rightarrow> (bool \<times> dfs_state) option"
  and any_of_dfs :: "nat \<Rightarrow> int list \<Rightarrow> dfs_state \<Rightarrow> (bool \<times> dfs_state) option" where
  "dfs 0 now st = None"
| "dfs (Suc n) now (txn_set, tmp, g) =
     (let txn_set1 = uset_emplace now txn_set;
          tmp1 = uset_emplace now tmp;
          g1 = map_index g now;
          it = map_get g1 now
      in any_of_dfs n it (txn_set1, tmp1, g1))"
| "any_of_dfs n [] st = Some (False, st)"
| "any_of_dfs n (x # xs) (txn_set, tmp, g) =
     (if x \<in> set txn_set then Some (True, (txn_set, tmp, g))
      else case dfs n x (txn_set, tmp, g) of
             None \<Rightarrow> None
           | Some (True, st1) \<Rightarrow> Some (True, st1)
           | Some (False, st1) \<Rightarrow> any_of_dfs n xs st1)"

text \<open>
  The range-for over \<open>waits_for_\<close>. The map grows while the loop runs (\<open>waits_for_[now]\<close>
  in \<open>dfs\<close>), so the loop is modelled on its iterator: the current key, and the step to the
  next larger key of the map as it is then.
\<close>

definition first_key :: "waits_for \<Rightarrow> int option" where
  "first_key g = (case g of [] \<Rightarrow> None | (k, v) # _ \<Rightarrow> Some k)"

definition next_key :: "waits_for \<Rightarrow> int \<Rightarrow> int option" where
  "next_key g k = (case filter (\<lambda>k'. k < k') (map fst g) of [] \<Rightarrow> None | k' # _ \<Rightarrow> Some k')"

fun HasCycle_loop :: "nat \<Rightarrow> int option \<Rightarrow> dfs_state \<Rightarrow> (bool \<times> dfs_state) option" where
  "HasCycle_loop 0 pos st = None"
| "HasCycle_loop (Suc n) None st = Some (False, st)"
| "HasCycle_loop (Suc n) (Some k) (txn_set, tmp, g) =
     (if k \<in> set tmp then HasCycle_loop n (next_key g k) (txn_set, tmp, g)
      else case dfs n k (txn_set, tmp, g) of
             None \<Rightarrow> None
           | Some (True, st1) \<Rightarrow> Some (True, st1)
           | Some (False, (txn_set1, tmp1, g1)) \<Rightarrow> HasCycle_loop n (next_key g1 k) ([], tmp1, g1))"

text \<open>
  \<open>HasCycle\<close>: the result, the victim written to \<open>*txn_id\<close> (only when the result is
  true) and the map after the call.
\<close>

definition HasCycle :: "nat \<Rightarrow> waits_for \<Rightarrow> (bool \<times> int option \<times> waits_for) option" where
  "HasCycle fuel g =
     (case HasCycle_loop fuel (first_key g) ([], [], g) of
        None \<Rightarrow> None
      | Some (found, (txn_set, tmp, g1)) \<Rightarrow>
          if found then Some (True, Some (fold (\<lambda>i id. if id > i then id else i) txn_set (- 1)), g1)
          else Some (False, None, g1))"

text \<open>The edges of the graph, and the transactions that lie on a cycle of it.\<close>

definition edges :: "waits_for \<Rightarrow> (int \<times> int) set" where
  "edges g = {(a, b). b \<in> set (map_get g a)}"

definition on_cycle :: "waits_for \<Rightarrow> int \<Rightarrow> bool" where
  "on_cycle g t = ((t, t) \<in> (edges g)\<^sup>+)"

text \<open>
  The graph of four transactions in which 1 waits for 4, 4 waits for 2, and 2 and 3 wait
  for each other; and a graph without a cycle, in which 1 waits for 2 and 3, and 2 waits
  for 3.
\<close>

definition tail_graph :: waits_for where
  "tail_graph = AddEdge (AddEdge (AddEdge (AddEdge [] 1 4) 4 2) 2 3) 3 2"

definition diamond_graph :: waits_for where
  "diamond_graph = AddEdge (AddEdge (AddEdge [] 1 2) 1 3) 2 3"

text \<open>
  Four table queues that give \<open>tail_graph\<close>: transaction 4 holds X on table 10 and 1 waits
  for it; 2 holds X on tables 11 and 13 and 3 holds X on table 12; 4 waits for table 11, 2
  for table 12 and 3 for table 13.
\<close>

definition x_queue :: "nat \<Rightarrow> int \<Rightarrow> int \<Rightarrow> LockRequestQueue" where
  "x_queue oi holder waiter =
     \<lparr>request_queue =
        [\<lparr>txn_id = holder, lock_mode = EXCLUSIVE, oid = oi, rid = None, granted = True\<rparr>,
         \<lparr>txn_id = waiter, lock_mode = EXCLUSIVE, oid = oi, rid = None, granted = False\<rparr>],
      upgrading = INVALID_TXN_ID\<rparr>"

definition tail_queues :: "LockRequestQueue list" where
  "tail_queues = [x_queue 10 4 1, x_queue 11 2 4, x_queue 12 3 2, x_queue 13 2 3]"

section \<open>Aggregation executor\<close>

text \<open>
  The value and plan headers are not part of the sources. A value is a typed null or a
  typed payload; \<open>ValueFactory::GetIntegerValue 0\<close> is \<open>Val INTEGER 0\<close> and
  \<open>ValueFactory::GetNullValueByType t\<close> is \<open>Null t\<close>. Of the plan node the executor reads the
  group-by expressions, the aggregate types and the column types of the output schema.
\<close>

datatype TypeId = INVALID | BOOLEAN | TINYINT | SMALLINT | INTEGER | BIGINT | DECIMAL | VARCHAR
  | TIMESTAMP

datatype Value = Val TypeId int | Null TypeId

fun IsNull :: "Value \<Rightarrow> bool" where
  "IsNull (Null t) = True"
| "IsNull (Val t v) = False"

datatype AggregationType = CountStarAggregate | CountAggregate | SumAggregate | MinAggregate
  | MaxAggregate

record 'e AggregationPlanNode =
  group_bys :: "'e list"
  aggregates :: "'e list"
  agg_types :: "AggregationType list"
  output_schema :: "TypeId list"

text \<open>
  The executor: the aggregation hash table as the list of its entries (group-by values,
  aggregate values) in the order of its iterator, the iterator as a position in that list
  (\<open>End\<close> is the length), and the flag \<open>finished_\<close>.
\<close>

record AggregationExecutor =
  aht :: "(Value list \<times> Value list) list"
  aht_iterator :: nat
  finished :: bool

definition AggregationExecutor_new :: AggregationExecutor where
  "AggregationExecutor_new = \<lparr>aht = [], aht_iterator = 0, finished = False\<rparr>"

text \<open>
  \<open>Init\<close> drains the child, here the list of the tuples it produces, into the table.
  \<open>insert_combine t\<close> stands for
  \<open>aht_.InsertCombine(MakeAggregateKey(&t), MakeAggregateValue(&t))\<close>.
\<close>

definition Init :: "(Value list \<Rightarrow> (Value list \<times> Value list) list \<Rightarrow> (Value list \<times> Value list) list)
    \<Rightarrow> Value list list \<Rightarrow> AggregationExecutor \<Rightarrow> AggregationExecutor" where
  "Init insert_combine child ex = ex\<lparr>aht := fold insert_combine child (aht ex), aht_iterator := 0\<rparr>"

datatype next_result = Row "Value list" | NoRow | OutOfRange

text \<open>
  The loop of \<open>Next\<close> over the aggregate types, from index \<open>i\<close> on. \<open>GetColumn(i)\<close> on a
  schema with no column \<open>i\<close> is an access outside the vector: \<open>None\<close>.
\<close>

fun empty_values :: "AggregationType list \<Rightarrow> TypeId list \<Rightarrow> nat \<Rightarrow> Value list option" where
  "empty_values [] schema i = Some []"
| "empty_values (t # ts) schema i =
     (case t of
        CountStarAggregate \<Rightarrow> map_option ((#) (Val INTEGER 0)) (empty_values ts schema (Suc i))
      | _ \<Rightarrow> if i < length schema
             then map_option ((#) (Null (schema ! i))) (empty_values ts schema (Suc i))
             else None)"

definition Next :: "'e AggregationPlanNode \<Rightarrow> AggregationExecutor \<Rightarrow> next_result \<times> AggregationExecutor" where
  "Next plan ex =
     (if \<not> finished ex \<and> aht_iterator ex = length (aht ex) then
        if group_bys plan \<noteq> [] then (NoRow, ex)
        else case empty_values (agg_types plan) (output_schema plan) 0 of
               None \<Rightarrow> (OutOfRange, ex)
             | Some values \<Rightarrow> (Row values, ex\<lparr>finished := True\<rparr>)
      else if aht_iterator ex = length (aht ex) then (NoRow, ex)
      else let (k, v) = aht ex ! aht_iterator ex
           in (Row (k @ v), ex\<lparr>aht_iterator := aht_iterator ex + 1, finished := True\<rparr>))"

text \<open>
  The rows a caller gets that calls \<open>Next\<close> until it returns false, at most \<open>n\<close> times
  (\<open>None\<close>: still rows after \<open>n\<close> calls, or an access out of range).
\<close>

fun emitted :: "nat \<Rightarrow> 'e AggregationPlanNode \<Rightarrow> AggregationExecutor \<Rightarrow> Value list list option" where
  "emitted 0 plan ex = None"
| "emitted (Suc n) plan ex =
     (case Next plan ex of
        (NoRow, ex1) \<Rightarrow> Some []
      | (OutOfRange, ex1) \<Rightarrow> None
      | (Row r, ex1) \<Rightarrow> map_option ((#) r) (emitted n plan ex1))"

definition empty_row :: "'e AggregationPlanNode \<Rightarrow> Value list" where
  "empty_row plan =
     map (\<lambda>i. if agg_types plan ! i = CountStarAggregate then Val INTEGER 0
              else Null (output_schema plan ! i))
         [0..<length (agg_types plan)]"

definition three_aggregates :: "nat AggregationPlanNode" where
  "three_aggregates =
     \<lparr>group_bys = [], aggregates = [0, 1, 2],
      agg_types = [CountStarAggregate, SumAggregate, MaxAggregate],
      output_schema = [INTEGER, INTEGER, VARCHAR]\<rparr>"

definition grouped_aggregates :: "nat AggregationPlanNode" where
  "grouped_aggregates =
     \<lparr>group_bys = [0], aggregates = [1],
      agg_types = [CountStarAggregate],
      output_schema = [INTEGER, INTEGER]\<rparr>"

section \<open>Sort and TopN executors\<close>

text \<open>
  A tuple is a value of any type \<open>'t\<close>. An order-by is a pair of an order type and an
  expression, the expression a function from tuples to values \<open>'v\<close> (\<open>expr->Evaluate\<close>);
  \<open>cmp_lt\<close> is \<open>Value::CompareLessThan\<close> with its three results. \<open>BUSTUB_ASSERT(false, m)\<close>
  aborts with the message \<open>m\<close>.
\<close>

datatype CmpBool = CmpFalse | CmpTrue | CmpNull

datatype OrderByType = OrderByType_INVALID | DEFAULT | ASC | DESC

text \<open>The comparator of \<open>SortExecutor::Init\<close>.\<close>

fun sort_comp :: "('v \<Rightarrow> 'v \<Rightarrow> CmpBool) \<Rightarrow> (OrderByType \<times> ('t \<Rightarrow> 'v)) list \<Rightarrow> 't \<Rightarrow> 't
    \<Rightarrow> bool outcome" where
  "sort_comp cmp_lt [] lhs rhs = Abort ''tuple eq''"
| "sort_comp cmp_lt ((order_type, expr) # order_bys) lhs rhs =
     (let l = expr lhs; r = expr rhs; comp1 = cmp_lt l r; comp2 = cmp_lt r l in
      if comp1 = CmpFalse \<and> comp2 = CmpFalse then sort_comp cmp_lt order_bys lhs rhs
      else if order_type = DEFAULT \<or> order_type = ASC then Return (comp1 = CmpTrue)
      else if order_type = DESC then Return (comp2 = CmpTrue)
      else Abort ''comparion not exit'')"

text \<open>The comparator of \<open>TopNExecutor::Init\<close>: the same, but true on a tie.\<close>

fun topn_comp :: "('v \<Rightarrow> 'v \<Rightarrow> CmpBool) \<Rightarrow> (OrderByType \<times> ('t \<Rightarrow> 'v)) list \<Rightarrow> 't \<Rightarrow> 't
    \<Rightarrow> bool outcome" where
  "topn_comp cmp_lt [] lhs rhs = Return True"
| "topn_comp cmp_lt ((order_type, expr) # order_bys) lhs rhs =
     (let l = expr lhs; r = expr rhs; comp1 = cmp_lt l r; comp2 = cmp_lt r l in
      if comp1 = CmpFalse \<and> comp2 = CmpFalse then topn_comp cmp_lt order_bys lhs rhs
      else if order_type = DEFAULT \<or> order_type = ASC then Return (comp1 = CmpTrue)
      else if order_type = DESC then Return (comp2 = CmpTrue)
      else Abort ''comparion not exit'')"

text \<open>
  \<open>std::sort\<close> is the library's. It is modelled by an insertion sort: the elements are
  taken from left to right, each is put in front of the first element of the sorted part
  that the comparator puts it before. For a comparator that is a strict total order on
  the elements every sorting algorithm gives this result; otherwise the library leaves
  the result open. A comparison that aborts aborts the sort.
\<close>

fun insert_by :: "('t \<Rightarrow> 't \<Rightarrow> bool outcome) \<Rightarrow> 't \<Rightarrow> 't list \<Rightarrow> 't list outcome" where
  "insert_by cmp x [] = Return [x]"
| "insert_by cmp x (y # ys) =
     bind_outcome (cmp x y) (\<lambda>b.
       if b then Return (x # y # ys)
       else bind_outcome (insert_by cmp x ys) (\<lambda>r. Return (y # r)))"

fun std_sort_from :: "('t \<Rightarrow> 't \<Rightarrow> bool outcome) \<Rightarrow> 't list \<Rightarrow> 't list \<Rightarrow> 't list outcome" where
  "std_sort_from cmp sorted_part [] = Return sorted_part"
| "std_sort_from cmp sorted_part (x # xs) =
     bind_outcome (insert_by cmp x sorted_part) (\<lambda>s. std_sort_from cmp s xs)"

definition std_sort :: "('t \<Rightarrow> 't \<Rightarrow> bool outcome) \<Rightarrow> 't list \<Rightarrow> 't list outcome" where
  "std_sort cmp xs = std_sort_from cmp [] xs"

text \<open>
  \<open>SortExecutor::Init\<close> on a child that produces the tuples \<open>child\<close>: the vector \<open>tuples_\<close>
  that \<open>Next\<close> then emits from front to back.
\<close>

definition Sort_Init :: "('v \<Rightarrow> 'v \<Rightarrow> CmpBool) \<Rightarrow> (OrderByType \<times> ('t \<Rightarrow> 'v)) list \<Rightarrow> 't list
    \<Rightarrow> 't list outcome" where
  "Sort_Init cmp_lt order_bys child = std_sort (sort_comp cmp_lt order_bys) child"

text \<open>
  \<open>std::priority_queue\<close> is the library's. The queue is modelled by the list of its
  elements in ascending order of the comparator, \<open>top()\<close> being the last one; \<open>emplace\<close>
  puts the new element above the elements that the comparator puts before it, \<open>pop\<close>
  removes the last one.
\<close>

fun pq_emplace :: "('t \<Rightarrow> 't \<Rightarrow> bool outcome) \<Rightarrow> 't \<Rightarrow> 't list \<Rightarrow> 't list outcome" where
  "pq_emplace cmp x [] = Return [x]"
| "pq_emplace cmp x (y # ys) =
     bind_outcome (cmp y x) (\<lambda>b.
       if b then bind_outcome (pq_emplace cmp x ys) (\<lambda>r. Return (y # r))
       else Return (x # y # ys))"

definition pq_pop :: "'t list \<Rightarrow> 't list" where
  "pq_pop q = butlast q"

text \<open>The first loop of \<open>TopNExecutor::Init\<close>.\<close>

fun TopN_fill :: "('t \<Rightarrow> 't \<Rightarrow> bool outcome) \<Rightarrow> nat \<Rightarrow> 't list \<Rightarrow> 't list \<Rightarrow> 't list outcome" where
  "TopN_fill cmp n tmp_heap [] = Return tmp_heap"
| "TopN_fill cmp n tmp_heap (tuple # child) =
     bind_outcome (pq_emplace cmp tuple tmp_heap) (\<lambda>h.
       TopN_fill cmp n (if length h > n then pq_pop h else h) child)"

text \<open>The second loop: \<open>top\<close> and \<open>pop\<close> until the queue is empty.\<close>

function TopN_drain :: "'t list \<Rightarrow> 't list \<Rightarrow> 't list" where
  "TopN_drain tmp_heap tuples =
     (if tmp_heap = [] then tuples
      else TopN_drain (pq_pop tmp_heap) (tuples @ [last tmp_heap]))"
  by pat_completeness auto
termination
  by (relation "measure (\<lambda>(h, t). length h)") (auto simp: pq_pop_def)

declare TopN_drain.simps [simp del]

definition TopN_Init :: "('v \<Rightarrow> 'v \<Rightarrow> CmpBool) \<Rightarrow> (OrderByType \<times> ('t \<Rightarrow> 'v)) list \<Rightarrow> nat \<Rightarrow> 't list
    \<Rightarrow> 't list outcome" where
  "TopN_Init cmp_lt order_bys n child =
     bind_outcome (TopN_fill (topn_comp cmp_lt order_bys) n [] child) (\<lambda>tmp_heap.
       Return (rev (TopN_drain tmp_heap [])))"

text \<open>
  The comparator is a strict total order on the tuples of the input: no tuple occurs
  twice, of two different tuples the comparator puts exactly one before the other, and it
  is transitive.
\<close>

definition strict_total_on :: "('t \<Rightarrow> 't \<Rightarrow> bool outcome) \<Rightarrow> 't list \<Rightarrow> bool" where
  "strict_total_on cmp xs \<longleftrightarrow>
     distinct xs \<and>
     (\<forall>x \<in> set xs. \<forall>y \<in> set xs. x \<noteq> y \<longrightarrow>
        (\<exists>b. cmp x y = Return b \<and> cmp y x = Return (\<not> b))) \<and>
     (\<forall>x \<in> set xs. \<forall>y \<in> set xs. \<forall>z \<in> set xs.
        cmp x y = Return True \<and> cmp y z = Return True \<longrightarrow> cmp x z = Return True)"

definition before :: "('t \<Rightarrow> 't \<Rightarrow> bool outcome) \<Rightarrow> 't \<Rightarrow> 't \<Rightarrow> bool" where
  "before cmp x y \<longleftrightarrow> cmp x y = Return True"

text \<open>Insertion with a comparator that always returns.\<close>

fun ins :: "('t \<Rightarrow> 't \<Rightarrow> bool) \<Rightarrow> 't \<Rightarrow> 't list \<Rightarrow> 't list" where
  "ins lt x [] = [x]"
| "ins lt x (y # ys) = (if lt x y then x # y # ys else y # ins lt x ys)"

text \<open>
  Integers as values, pairs of integers as tuples, ordered by the first column ascending
  and then by the second descending.
\<close>

definition int_less :: "int \<Rightarrow> int \<Rightarrow> CmpBool" where
  "int_less a b = (if a < b then CmpTrue else CmpFalse)"

definition two_columns :: "(OrderByType \<times> (int \<times> int \<Rightarrow> int)) list" where
  "two_columns = [(ASC, fst), (DESC, snd)]"

definition first_column :: "(OrderByType \<times> (int \<times> int \<Rightarrow> int)) list" where
  "first_column = [(ASC, fst)]"


section \<open>Extendible hash table: the five-key scenario\<close>

lemma scenario_table:
  "Insert_all std_hash_int (ExtendibleHashTable_init 2)
     [(15, ''a''), (14, ''b''), (23, ''c''), (11, ''d''), (9, ''e'')]
   = Some \<lparr>global_depth = 3, bucket_size = 2, num_buckets = 4,
            dir = [1, 2, 1, 3, 1, 2, 1, 0],
            heap = [\<lparr>b_size = 2, b_depth = 3, b_list = [(23, ''c''), (15, ''a'')]\<rparr>,
                    \<lparr>b_size = 2, b_depth = 1, b_list = [(14, ''b'')]\<rparr>,
                    \<lparr>b_size = 2, b_depth = 2, b_list = [(9, ''e'')]\<rparr>,
                    \<lparr>b_size = 2, b_depth = 3, b_list = [(11, ''d'')]\<rparr>]\<rparr>"
  by code_simp

text \<open>
  C7. With bucket size 2 and the identity hash on \<open>int\<close>, inserting the keys 15, 14, 23,
  11, 9 in that order returns a table whose bucket counter is 4, whose directory refers to
  4 distinct buckets, and in which the buckets of directory slots 3 and 7 both have local
  depth 3.
\<close>

theorem C7_five_inserts:
  "\<exists>t. Insert_all std_hash_int (ExtendibleHashTable_init 2)
         [(15, ''a''), (14, ''b''), (23, ''c''), (11, ''d''), (9, ''e'')] = Some t
       \<and> GetNumBuckets t = 4 \<and> length (remdups (dir t)) = 4
       \<and> GetLocalDepth t 3 = 3 \<and> GetLocalDepth t 7 = 3"
  by (rule exI, rule conjI, rule scenario_table)
     (simp add: GetNumBuckets_def GetLocalDepth_def bucket_at_def)

section \<open>LRU-K replacer: the eviction policy\<close>

lemma sub_small: "b < a \<Longrightarrow> a \<le> INT64_MAX \<Longrightarrow> size_t_sub a b = a - b"
proof -
  assume a: "b < a" "a \<le> INT64_MAX"
  have "a + 2 ^ 64 - b mod 2 ^ 64 = (a - b) + 2 ^ 64"
    using a by (simp add: INT64_MAX_def)
  moreover have "a - b < 2 ^ 64" using a by (simp add: INT64_MAX_def)
  ultimately show ?thesis by (simp add: size_t_sub_def)
qed

lemma Evict_loop_skip:
  "\<not> snd e \<or> fst e = [] \<Longrightarrow> Evict_loop kk ct (e # rest) i v = Evict_loop kk ct rest (Suc i) v"
  by simp

lemma Evict_loop_lt:
  "lt_k kk e \<Longrightarrow> Evict_loop kk ct (e # rest) i v =
     (if hd (fst e) < eariest_time v
      then Evict_loop kk ct rest (Suc i)
            (v\<lparr>flag := True, max_interval := INT64_MAX, frame_id_out := int i,
               eariest_time := hd (fst e), it_j := i\<rparr>)
      else Evict_loop kk ct rest (Suc i) (v\<lparr>flag := True, max_interval := INT64_MAX\<rparr>))"
  by (simp add: lt_k_def Let_def)

lemma Evict_loop_full:
  "full_k kk e \<Longrightarrow> Evict_loop kk ct (e # rest) i v =
     (if size_t_sub ct (hd (fst e)) > max_interval v
      then Evict_loop kk ct rest (Suc i)
            (v\<lparr>flag := True, frame_id_out := int i,
               max_interval := size_t_sub ct (hd (fst e)), it_j := i\<rparr>)
      else Evict_loop kk ct rest (Suc i) (v\<lparr>flag := True\<rparr>))"
  by (simp add: full_k_def Let_def)

lemma entry_cases: "(\<not> snd e \<or> fst e = []) \<or> lt_k kk e \<or> full_k kk e"
  by (auto simp: lt_k_def full_k_def)

lemma post2_keep:
  assumes "post2 kk rest (Suc i) v v'" "lt_k kk e \<longrightarrow> eariest_time v \<le> hd (fst e)"
  shows "post2 kk (e # rest) i v v'"
proof -
  from assms(1) have b: "flag v'" "max_interval v' = INT64_MAX" by (auto simp: post2_def)
  from assms(1) consider
    (same) "v' = v" "\<forall>e\<in>set rest. lt_k kk e \<longrightarrow> eariest_time v \<le> hd (fst e)"
  | (sel) p where "p < length rest" "it_j v' = Suc i + p" "frame_id_out v' = int (Suc i + p)"
      "lt_k kk (rest ! p)" "eariest_time v' = hd (fst (rest ! p))"
      "hd (fst (rest ! p)) < eariest_time v"
      "\<forall>e\<in>set rest. lt_k kk e \<longrightarrow> hd (fst (rest ! p)) \<le> hd (fst e)"
    by (auto simp: post2_def)
  then show ?thesis
  proof cases
    case same
    then show ?thesis using b assms(2) by (simp add: post2_def)
  next
    case sel
    have "Suc p < length (e # rest) \<and> it_j v' = i + Suc p \<and> frame_id_out v' = int (i + Suc p)
        \<and> lt_k kk ((e # rest) ! Suc p) \<and> eariest_time v' = hd (fst ((e # rest) ! Suc p))
        \<and> hd (fst ((e # rest) ! Suc p)) < eariest_time v
        \<and> (\<forall>x\<in>set (e # rest). lt_k kk x \<longrightarrow> hd (fst ((e # rest) ! Suc p)) \<le> hd (fst x))"
      using sel assms(2) by auto
    then show ?thesis using b unfolding post2_def by blast
  qed
qed

lemma post2_take:
  assumes "post2 kk rest (Suc i) v1 v'" "lt_k kk e" "hd (fst e) < eariest_time v"
    "eariest_time v1 = hd (fst e)" "it_j v1 = i" "frame_id_out v1 = int i"
  shows "post2 kk (e # rest) i v v'"
proof -
  from assms(1) have b: "flag v'" "max_interval v' = INT64_MAX" by (auto simp: post2_def)
  from assms(1) consider
    (same) "v' = v1" "\<forall>e\<in>set rest. lt_k kk e \<longrightarrow> eariest_time v1 \<le> hd (fst e)"
  | (sel) p where "p < length rest" "it_j v' = Suc i + p" "frame_id_out v' = int (Suc i + p)"
      "lt_k kk (rest ! p)" "eariest_time v' = hd (fst (rest ! p))"
      "hd (fst (rest ! p)) < eariest_time v1"
      "\<forall>e\<in>set rest. lt_k kk e \<longrightarrow> hd (fst (rest ! p)) \<le> hd (fst e)"
    by (auto simp: post2_def)
  then show ?thesis
  proof cases
    case same
    have "0 < length (e # rest) \<and> it_j v' = i + 0 \<and> frame_id_out v' = int (i + 0)
        \<and> lt_k kk ((e # rest) ! 0) \<and> eariest_time v' = hd (fst ((e # rest) ! 0))
        \<and> hd (fst ((e # rest) ! 0)) < eariest_time v
        \<and> (\<forall>x\<in>set (e # rest). lt_k kk x \<longrightarrow> hd (fst ((e # rest) ! 0)) \<le> hd (fst x))"
      using same assms by auto
    then show ?thesis using b unfolding post2_def by blast
  next
    case sel
    have "Suc p < length (e # rest) \<and> it_j v' = i + Suc p \<and> frame_id_out v' = int (i + Suc p)
        \<and> lt_k kk ((e # rest) ! Suc p) \<and> eariest_time v' = hd (fst ((e # rest) ! Suc p))
        \<and> hd (fst ((e # rest) ! Suc p)) < eariest_time v
        \<and> (\<forall>x\<in>set (e # rest). lt_k kk x \<longrightarrow> hd (fst ((e # rest) ! Suc p)) \<le> hd (fst x))"
      using sel assms by auto
    then show ?thesis using b unfolding post2_def by blast
  qed
qed

lemma phase2:
  assumes "\<forall>e\<in>set rest. fst e \<noteq> [] \<longrightarrow> hd (fst e) < ct" "ct \<le> INT64_MAX"
    "max_interval v = INT64_MAX" "flag v"
  shows "post2 kk rest i v (Evict_loop kk ct rest i v)"
  using assms
proof (induction rest arbitrary: i v)
  case Nil
  then show ?case by (simp add: post2_def)
next
  case (Cons e rest)
  have hyp: "\<forall>e\<in>set rest. fst e \<noteq> [] \<longrightarrow> hd (fst e) < ct" using Cons.prems(1) by simp
  note ih = Cons.IH[OF hyp Cons.prems(2)]
  consider (skip) "\<not> snd e \<or> fst e = []" | (lt) "lt_k kk e" | (full) "full_k kk e"
    using entry_cases by blast
  then show ?case
  proof cases
    case skip
    have nlt: "\<not> lt_k kk e" using skip by (auto simp: lt_k_def)
    show ?thesis
      unfolding Evict_loop_skip[OF skip]
      by (rule post2_keep[OF ih[OF Cons.prems(3,4)]]) (simp add: nlt)
  next
    case lt
    show ?thesis
    proof (cases "hd (fst e) < eariest_time v")
      case True
      let ?v1 = "v\<lparr>flag := True, max_interval := INT64_MAX, frame_id_out := int i,
               eariest_time := hd (fst e), it_j := i\<rparr>"
      have "post2 kk rest (Suc i) ?v1 (Evict_loop kk ct rest (Suc i) ?v1)"
        by (rule ih) simp_all
      then have "post2 kk (e # rest) i v (Evict_loop kk ct rest (Suc i) ?v1)"
        by (rule post2_take) (use lt True in simp_all)
      then show ?thesis using True by (simp only: Evict_loop_lt[OF lt] if_True)
    next
      case False
      have veq: "v\<lparr>flag := True, max_interval := INT64_MAX\<rparr> = v" using Cons.prems(3,4) by simp
      have "post2 kk (e # rest) i v (Evict_loop kk ct rest (Suc i) v)"
        by (rule post2_keep[OF ih[OF Cons.prems(3,4)]]) (use False in simp)
      then show ?thesis using False by (simp only: Evict_loop_lt[OF lt] if_False veq)
    qed
  next
    case full
    have nlt: "\<not> lt_k kk e" using full by (auto simp: lt_k_def full_k_def)
    have ne: "fst e \<noteq> []" using full by (simp add: full_k_def)
    have "hd (fst e) < ct" using Cons.prems(1) ne by simp
    then have "size_t_sub ct (hd (fst e)) \<le> INT64_MAX"
      using sub_small[of "hd (fst e)" ct] Cons.prems(2) by simp
    then have nsel: "\<not> size_t_sub ct (hd (fst e)) > max_interval v" using Cons.prems(3) by simp
    have veq: "v\<lparr>flag := True\<rparr> = v" using Cons.prems(4) by simp
    have "post2 kk (e # rest) i v (Evict_loop kk ct rest (Suc i) v)"
      by (rule post2_keep[OF ih[OF Cons.prems(3,4)]]) (simp add: nlt)
    then show ?thesis using nsel by (simp only: Evict_loop_full[OF full] if_False veq)
  qed
qed

lemma post_lt_shift:
  assumes "post_lt kk rest (Suc i) v'" "\<not> lt_k kk e"
  shows "post_lt kk (e # rest) i v'"
proof -
  from assms(1) obtain p where p: "p < length rest" "it_j v' = Suc i + p"
      "frame_id_out v' = int (Suc i + p)" "lt_k kk (rest ! p)"
      "\<forall>e\<in>set rest. lt_k kk e \<longrightarrow> hd (fst (rest ! p)) \<le> hd (fst e)" and f: "flag v'"
    by (auto simp: post_lt_def)
  have "Suc p < length (e # rest) \<and> it_j v' = i + Suc p \<and> frame_id_out v' = int (i + Suc p)
      \<and> lt_k kk ((e # rest) ! Suc p)
      \<and> (\<forall>x\<in>set (e # rest). lt_k kk x \<longrightarrow> hd (fst ((e # rest) ! Suc p)) \<le> hd (fst x))"
    using p assms(2) by auto
  then show ?thesis using f unfolding post_lt_def by blast
qed

lemma post2_post_lt:
  assumes "post2 kk rest (Suc i) v1 v'" "lt_k kk e"
    "eariest_time v1 = hd (fst e)" "it_j v1 = i" "frame_id_out v1 = int i"
  shows "post_lt kk (e # rest) i v'"
proof -
  from assms(1) have b: "flag v'" by (auto simp: post2_def)
  from assms(1) consider
    (same) "v' = v1" "\<forall>e\<in>set rest. lt_k kk e \<longrightarrow> eariest_time v1 \<le> hd (fst e)"
  | (sel) p where "p < length rest" "it_j v' = Suc i + p" "frame_id_out v' = int (Suc i + p)"
      "lt_k kk (rest ! p)" "eariest_time v' = hd (fst (rest ! p))"
      "hd (fst (rest ! p)) < eariest_time v1"
      "\<forall>e\<in>set rest. lt_k kk e \<longrightarrow> hd (fst (rest ! p)) \<le> hd (fst e)"
    by (auto simp: post2_def)
  then show ?thesis
  proof cases
    case same
    have "0 < length (e # rest) \<and> it_j v' = i + 0 \<and> frame_id_out v' = int (i + 0)
        \<and> lt_k kk ((e # rest) ! 0)
        \<and> (\<forall>x\<in>set (e # rest). lt_k kk x \<longrightarrow> hd (fst ((e # rest) ! 0)) \<le> hd (fst x))"
      using same assms by auto
    then show ?thesis using b unfolding post_lt_def by blast
  next
    case sel
    have "Suc p < length (e # rest) \<and> it_j v' = i + Suc p \<and> frame_id_out v' = int (i + Suc p)
        \<and> lt_k kk ((e # rest) ! Suc p)
        \<and> (\<forall>x\<in>set (e # rest). lt_k kk x \<longrightarrow> hd (fst ((e # rest) ! Suc p)) \<le> hd (fst x))"
      using sel assms by auto
    then show ?thesis using b unfolding post_lt_def by blast
  qed
qed

lemma phase1_lt:
  assumes "\<forall>e\<in>set rest. fst e \<noteq> [] \<longrightarrow> hd (fst e) < ct" "ct < INT64_MAX"
    "eariest_time v = INT64_MAX" "max_interval v < INT64_MAX" "\<exists>e\<in>set rest. lt_k kk e"
  shows "post_lt kk rest i (Evict_loop kk ct rest i v)"
  using assms
proof (induction rest arbitrary: i v)
  case Nil
  then show ?case by simp
next
  case (Cons e rest)
  have hyp: "\<forall>e\<in>set rest. fst e \<noteq> [] \<longrightarrow> hd (fst e) < ct" using Cons.prems(1) by simp
  have ct: "ct \<le> INT64_MAX" using Cons.prems(2) by simp
  consider (skip) "\<not> snd e \<or> fst e = []" | (lt) "lt_k kk e" | (full) "full_k kk e"
    using entry_cases by blast
  then show ?case
  proof cases
    case skip
    have nlt: "\<not> lt_k kk e" using skip by (auto simp: lt_k_def)
    then have ex: "\<exists>e\<in>set rest. lt_k kk e" using Cons.prems(5) by auto
    show ?thesis
      unfolding Evict_loop_skip[OF skip]
      by (rule post_lt_shift[OF Cons.IH[OF hyp Cons.prems(2,3,4) ex] nlt])
  next
    case lt
    have ne: "fst e \<noteq> []" using lt by (simp add: lt_k_def)
    have sel: "hd (fst e) < eariest_time v" using Cons.prems(1,2,3) ne by simp
    let ?v1 = "v\<lparr>flag := True, max_interval := INT64_MAX, frame_id_out := int i,
               eariest_time := hd (fst e), it_j := i\<rparr>"
    have "post2 kk rest (Suc i) ?v1 (Evict_loop kk ct rest (Suc i) ?v1)"
      by (rule phase2[OF hyp ct]) simp_all
    then have "post_lt kk (e # rest) i (Evict_loop kk ct rest (Suc i) ?v1)"
      by (rule post2_post_lt) (use lt in simp_all)
    then show ?thesis using sel by (simp only: Evict_loop_lt[OF lt] if_True)
  next
    case full
    have nlt: "\<not> lt_k kk e" using full by (auto simp: lt_k_def full_k_def)
    then have ex: "\<exists>e\<in>set rest. lt_k kk e" using Cons.prems(5) by auto
    have ne: "fst e \<noteq> []" using full by (simp add: full_k_def)
    have lt_ct: "hd (fst e) < ct" using Cons.prems(1) ne by simp
    have d: "size_t_sub ct (hd (fst e)) < INT64_MAX"
      using sub_small[OF lt_ct ct] Cons.prems(2) by simp
    show ?thesis
    proof (cases "size_t_sub ct (hd (fst e)) > max_interval v")
      case True
      let ?v1 = "v\<lparr>flag := True, frame_id_out := int i,
               max_interval := size_t_sub ct (hd (fst e)), it_j := i\<rparr>"
      have "post_lt kk rest (Suc i) (Evict_loop kk ct rest (Suc i) ?v1)"
        by (rule Cons.IH[OF hyp Cons.prems(2) _ _ ex]) (use Cons.prems(3) d in simp_all)
      then have "post_lt kk (e # rest) i (Evict_loop kk ct rest (Suc i) ?v1)"
        by (rule post_lt_shift) (rule nlt)
      then show ?thesis using True by (simp only: Evict_loop_full[OF full] if_True)
    next
      case False
      let ?v1 = "v\<lparr>flag := True\<rparr>"
      have "post_lt kk rest (Suc i) (Evict_loop kk ct rest (Suc i) ?v1)"
        by (rule Cons.IH[OF hyp Cons.prems(2) _ _ ex]) (use Cons.prems(3,4) in simp_all)
      then have "post_lt kk (e # rest) i (Evict_loop kk ct rest (Suc i) ?v1)"
        by (rule post_lt_shift) (rule nlt)
      then show ?thesis using False by (simp only: Evict_loop_full[OF full] if_False)
    qed
  qed
qed

lemma post_full_keep:
  assumes "post_full kk ct rest (Suc i) v1 v'" "flag v1 \<longleftrightarrow> flag v \<or> full_k kk e"
    "it_j v1 = it_j v" "frame_id_out v1 = frame_id_out v" "max_interval v1 = max_interval v"
    "full_k kk e \<longrightarrow> ct - hd (fst e) \<le> max_interval v"
  shows "post_full kk ct (e # rest) i v v'"
proof -
  from assms(1,2) have b: "flag v' \<longleftrightarrow> flag v \<or> (\<exists>e\<in>set (e # rest). full_k kk e)"
    by (auto simp: post_full_def)
  from assms(1) consider
    (same) "it_j v' = it_j v1" "frame_id_out v' = frame_id_out v1" "max_interval v' = max_interval v1"
       "\<forall>e\<in>set rest. full_k kk e \<longrightarrow> ct - hd (fst e) \<le> max_interval v1"
  | (sel) p where "p < length rest" "it_j v' = Suc i + p" "frame_id_out v' = int (Suc i + p)"
      "full_k kk (rest ! p)" "max_interval v' = ct - hd (fst (rest ! p))"
      "max_interval v1 < max_interval v'"
      "\<forall>e\<in>set rest. full_k kk e \<longrightarrow> ct - hd (fst e) \<le> max_interval v'"
    by (auto simp: post_full_def)
  then show ?thesis
  proof cases
    case same
    then show ?thesis using b assms(3-6) by (simp add: post_full_def)
  next
    case sel
    have "Suc p < length (e # rest) \<and> it_j v' = i + Suc p \<and> frame_id_out v' = int (i + Suc p)
        \<and> full_k kk ((e # rest) ! Suc p) \<and> max_interval v' = ct - hd (fst ((e # rest) ! Suc p))
        \<and> max_interval v < max_interval v'
        \<and> (\<forall>x\<in>set (e # rest). full_k kk x \<longrightarrow> ct - hd (fst x) \<le> max_interval v')"
      using sel assms(3-6) by auto
    then show ?thesis using b unfolding post_full_def by blast
  qed
qed

lemma post_full_take:
  assumes "post_full kk ct rest (Suc i) v1 v'" "flag v1" "full_k kk e"
    "it_j v1 = i" "frame_id_out v1 = int i" "max_interval v1 = ct - hd (fst e)"
    "max_interval v < ct - hd (fst e)"
  shows "post_full kk ct (e # rest) i v v'"
proof -
  from assms(1,2,3) have b: "flag v' \<longleftrightarrow> flag v \<or> (\<exists>e\<in>set (e # rest). full_k kk e)"
    by (auto simp: post_full_def)
  from assms(1) consider
    (same) "it_j v' = it_j v1" "frame_id_out v' = frame_id_out v1" "max_interval v' = max_interval v1"
       "\<forall>e\<in>set rest. full_k kk e \<longrightarrow> ct - hd (fst e) \<le> max_interval v1"
  | (sel) p where "p < length rest" "it_j v' = Suc i + p" "frame_id_out v' = int (Suc i + p)"
      "full_k kk (rest ! p)" "max_interval v' = ct - hd (fst (rest ! p))"
      "max_interval v1 < max_interval v'"
      "\<forall>e\<in>set rest. full_k kk e \<longrightarrow> ct - hd (fst e) \<le> max_interval v'"
    by (auto simp: post_full_def)
  then show ?thesis
  proof cases
    case same
    have "0 < length (e # rest) \<and> it_j v' = i + 0 \<and> frame_id_out v' = int (i + 0)
        \<and> full_k kk ((e # rest) ! 0) \<and> max_interval v' = ct - hd (fst ((e # rest) ! 0))
        \<and> max_interval v < max_interval v'
        \<and> (\<forall>x\<in>set (e # rest). full_k kk x \<longrightarrow> ct - hd (fst x) \<le> max_interval v')"
      using same assms(3-7) by auto
    then show ?thesis using b unfolding post_full_def by blast
  next
    case sel
    have "Suc p < length (e # rest) \<and> it_j v' = i + Suc p \<and> frame_id_out v' = int (i + Suc p)
        \<and> full_k kk ((e # rest) ! Suc p) \<and> max_interval v' = ct - hd (fst ((e # rest) ! Suc p))
        \<and> max_interval v < max_interval v'
        \<and> (\<forall>x\<in>set (e # rest). full_k kk x \<longrightarrow> ct - hd (fst x) \<le> max_interval v')"
      using sel assms(3-7) by auto
    then show ?thesis using b unfolding post_full_def by blast
  qed
qed

lemma phase1_full:
  assumes "\<forall>e\<in>set rest. fst e \<noteq> [] \<longrightarrow> hd (fst e) < ct" "ct < INT64_MAX"
    "\<forall>e\<in>set rest. \<not> lt_k kk e"
  shows "post_full kk ct rest i v (Evict_loop kk ct rest i v)"
  using assms
proof (induction rest arbitrary: i v)
  case Nil
  then show ?case by (simp add: post_full_def)
next
  case (Cons e rest)
  have hyp: "\<forall>e\<in>set rest. fst e \<noteq> [] \<longrightarrow> hd (fst e) < ct" using Cons.prems(1) by simp
  have nl: "\<forall>e\<in>set rest. \<not> lt_k kk e" using Cons.prems(3) by simp
  have ct: "ct \<le> INT64_MAX" using Cons.prems(2) by simp
  note ih = Cons.IH[OF hyp Cons.prems(2) nl]
  have nlt: "\<not> lt_k kk e" using Cons.prems(3) by simp
  consider (skip) "\<not> snd e \<or> fst e = []" | (full) "full_k kk e"
    using entry_cases nlt by blast
  then show ?case
  proof cases
    case skip
    have nf: "\<not> full_k kk e" using skip by (auto simp: full_k_def)
    show ?thesis
      unfolding Evict_loop_skip[OF skip]
      by (rule post_full_keep[OF ih]) (simp_all add: nf)
  next
    case full
    have ne: "fst e \<noteq> []" using full by (simp add: full_k_def)
    have lt_ct: "hd (fst e) < ct" using Cons.prems(1) ne by simp
    have d: "size_t_sub ct (hd (fst e)) = ct - hd (fst e)" by (rule sub_small[OF lt_ct ct])
    show ?thesis
    proof (cases "size_t_sub ct (hd (fst e)) > max_interval v")
      case True
      let ?v1 = "v\<lparr>flag := True, frame_id_out := int i,
               max_interval := size_t_sub ct (hd (fst e)), it_j := i\<rparr>"
      have "post_full kk ct (e # rest) i v (Evict_loop kk ct rest (Suc i) ?v1)"
        by (rule post_full_take[OF ih]) (use True d full in simp_all)
      then show ?thesis using True by (simp only: Evict_loop_full[OF full] if_True)
    next
      case False
      let ?v1 = "v\<lparr>flag := True\<rparr>"
      have "post_full kk ct (e # rest) i v (Evict_loop kk ct rest (Suc i) ?v1)"
        by (rule post_full_keep[OF ih]) (use False d full in simp_all)
      then show ?thesis using False by (simp only: Evict_loop_full[OF full] if_False)
    qed
  qed
qed

lemma candidates_lt: "i \<in> candidates r \<Longrightarrow> length (history r i) < replacer_k r
    \<Longrightarrow> lt_k (replacer_k r) (replacer r ! i)"
  by (simp add: candidates_def history_def lt_k_def)

lemma candidates_full: "i \<in> candidates r \<Longrightarrow> \<not> length (history r i) < replacer_k r
    \<Longrightarrow> full_k (replacer_k r) (replacer r ! i)"
  by (simp add: candidates_def history_def full_k_def)

lemma wf_hd: "replacer_wf r \<Longrightarrow> \<forall>e\<in>set (replacer r). fst e \<noteq> [] \<longrightarrow> hd (fst e) < current_timestamp r"
  by (auto simp: replacer_wf_def)

lemma Evict_fires:
  assumes "flag (Evict_loop (replacer_k r) (current_timestamp r) (replacer r) 0
                \<lparr>max_interval = 0, eariest_time = INT64_MAX, flag = False,
                 frame_id_out = fid, it_j = 0\<rparr>)"
    "frame_id_out (Evict_loop (replacer_k r) (current_timestamp r) (replacer r) 0
                \<lparr>max_interval = 0, eariest_time = INT64_MAX, flag = False,
                 frame_id_out = fid, it_j = 0\<rparr>) = int f"
  shows "\<exists>r'. Evict r fid = (True, int f, r')"
  using assms by (simp add: Evict_def Let_def)

lemma evict_lt_case:
  assumes wf: "replacer_wf r" and c: "i0 \<in> candidates r" "length (history r i0) < replacer_k r"
  shows "\<exists>f r'. Evict r fid = (True, int f, r') \<and> f \<in> candidates r
        \<and> length (history r f) < replacer_k r
        \<and> (\<forall>i \<in> candidates r. length (history r i) < replacer_k r
              \<longrightarrow> hd (history r f) \<le> hd (history r i))"
proof -
  let ?init = "\<lparr>max_interval = 0, eariest_time = INT64_MAX, flag = False,
                 frame_id_out = fid, it_j = 0\<rparr>"
  let ?v = "Evict_loop (replacer_k r) (current_timestamp r) (replacer r) 0 ?init"
  have i0: "i0 < length (replacer r)" using c(1) by (simp add: candidates_def)
  have ex: "\<exists>e\<in>set (replacer r). lt_k (replacer_k r) e"
    using candidates_lt[OF c] i0 nth_mem by blast
  have ct: "current_timestamp r < INT64_MAX" using wf by (simp add: replacer_wf_def)
  have "post_lt (replacer_k r) (replacer r) 0 ?v"
    by (rule phase1_lt[OF wf_hd[OF wf] ct _ _ ex]) (simp_all add: INT64_MAX_def)
  then obtain p where fl: "flag ?v" and p: "p < length (replacer r)" "it_j ?v = p"
      "frame_id_out ?v = int p" "lt_k (replacer_k r) (replacer r ! p)"
      "\<forall>e\<in>set (replacer r). lt_k (replacer_k r) e \<longrightarrow> hd (fst (replacer r ! p)) \<le> hd (fst e)"
    by (auto simp: post_lt_def)
  from Evict_fires[OF fl p(3)] obtain r' where ev: "Evict r fid = (True, int p, r')" by blast
  have pc: "p \<in> candidates r" using p(1,4) by (simp add: candidates_def lt_k_def history_def)
  have pl: "length (history r p) < replacer_k r" using p(4) by (simp add: lt_k_def history_def)
  have mn: "\<forall>i \<in> candidates r. length (history r i) < replacer_k r
              \<longrightarrow> hd (history r p) \<le> hd (history r i)"
  proof (intro ballI impI)
    fix i assume i: "i \<in> candidates r" "length (history r i) < replacer_k r"
    have "replacer r ! i \<in> set (replacer r)" using i(1) by (simp add: candidates_def)
    then show "hd (history r p) \<le> hd (history r i)"
      using p(5) candidates_lt[OF i] by (simp add: history_def)
  qed
  show ?thesis using ev pc pl mn by blast
qed

lemma full_kth: "replacer_wf r \<Longrightarrow> i \<in> candidates r \<Longrightarrow> \<not> length (history r i) < replacer_k r
   \<Longrightarrow> kth_recent (replacer_k r) (history r i) = hd (history r i)"
proof -
  assume wf: "replacer_wf r" and i: "i \<in> candidates r" and n: "\<not> length (history r i) < replacer_k r"
  have "replacer r ! i \<in> set (replacer r)" using i by (simp add: candidates_def)
  then have "length (history r i) \<le> replacer_k r" using wf by (simp add: replacer_wf_def history_def)
  then have l: "length (history r i) = replacer_k r" using n by simp
  have ne: "history r i \<noteq> []" using i by (simp add: candidates_def)
  have "replacer_k r - 1 < length (history r i)" using l ne by (cases "history r i") auto
  then have "rev (history r i) ! (replacer_k r - 1) = history r i ! (length (history r i) - Suc (replacer_k r - 1))"
    by (rule rev_nth)
  then show ?thesis using l ne by (simp add: kth_recent_def hd_conv_nth)
qed

lemma evict_full_case:
  assumes wf: "replacer_wf r" and c: "i0 \<in> candidates r"
    and all: "\<forall>i\<in>candidates r. \<not> length (history r i) < replacer_k r"
  shows "\<exists>f r'. Evict r fid = (True, int f, r') \<and> f \<in> candidates r
        \<and> (\<forall>i \<in> candidates r. kth_recent (replacer_k r) (history r f)
                                 \<le> kth_recent (replacer_k r) (history r i))"
proof -
  let ?init = "\<lparr>max_interval = 0, eariest_time = INT64_MAX, flag = False,
                 frame_id_out = fid, it_j = 0\<rparr>"
  let ?v = "Evict_loop (replacer_k r) (current_timestamp r) (replacer r) 0 ?init"
  let ?ct = "current_timestamp r"
  have ct: "?ct < INT64_MAX" using wf by (simp add: replacer_wf_def)
  have nolt: "\<forall>e\<in>set (replacer r). \<not> lt_k (replacer_k r) e"
  proof
    fix e assume "e \<in> set (replacer r)"
    then obtain i where i: "i < length (replacer r)" "replacer r ! i = e"
      by (auto simp: in_set_conv_nth)
    show "\<not> lt_k (replacer_k r) e"
    proof
      assume l: "lt_k (replacer_k r) e"
      then have ic: "i \<in> candidates r" using i by (simp add: candidates_def lt_k_def history_def)
      have "\<not> length (history r i) < replacer_k r" using all ic by blast
      then show False using l i by (simp add: lt_k_def history_def)
    qed
  qed
  have i0: "i0 < length (replacer r)" using c by (simp add: candidates_def)
  have f0: "full_k (replacer_k r) (replacer r ! i0)" using candidates_full[OF c] all c by simp
  have m0: "replacer r ! i0 \<in> set (replacer r)" using i0 by simp
  have hd0: "hd (fst (replacer r ! i0)) < ?ct" using wf_hd[OF wf] m0 f0 by (simp add: full_k_def)
  have pf: "post_full (replacer_k r) ?ct (replacer r) 0 ?init ?v"
    by (rule phase1_full[OF wf_hd[OF wf] ct nolt])
  have fl: "flag ?v" using pf f0 m0 by (auto simp: post_full_def)
  from pf consider
    (same) "\<forall>e\<in>set (replacer r). full_k (replacer_k r) e \<longrightarrow> ?ct - hd (fst e) \<le> max_interval ?init"
  | (sel) p where "p < length (replacer r)" "it_j ?v = 0 + p" "frame_id_out ?v = int (0 + p)"
      "full_k (replacer_k r) (replacer r ! p)" "max_interval ?v = ?ct - hd (fst (replacer r ! p))"
      "\<forall>e\<in>set (replacer r). full_k (replacer_k r) e \<longrightarrow> ?ct - hd (fst e) \<le> max_interval ?v"
    unfolding post_full_def by blast
  then show ?thesis
  proof cases
    case same
    then have "?ct - hd (fst (replacer r ! i0)) \<le> 0" using f0 m0 by auto
    then show ?thesis using hd0 by simp
  next
    case sel
    from Evict_fires[OF fl] sel(3) obtain r' where ev: "Evict r fid = (True, int p, r')" by auto
    have pc: "p \<in> candidates r" using sel(1,4) by (simp add: candidates_def full_k_def history_def)
    have mp: "replacer r ! p \<in> set (replacer r)" using sel(1) by simp
    have hdp: "hd (fst (replacer r ! p)) < ?ct" using wf_hd[OF wf] mp sel(4) by (simp add: full_k_def)
    have mn: "\<forall>i \<in> candidates r. kth_recent (replacer_k r) (history r p)
                                 \<le> kth_recent (replacer_k r) (history r i)"
    proof
      fix i assume i: "i \<in> candidates r"
      have ni: "\<not> length (history r i) < replacer_k r" using all i by simp
      have mi: "replacer r ! i \<in> set (replacer r)" using i by (simp add: candidates_def)
      have fi: "full_k (replacer_k r) (replacer r ! i)" by (rule candidates_full[OF i ni])
      have hdi: "hd (fst (replacer r ! i)) < ?ct" using wf_hd[OF wf] mi fi by (simp add: full_k_def)
      have "?ct - hd (fst (replacer r ! i)) \<le> ?ct - hd (fst (replacer r ! p))"
        using sel(5,6) fi mi by auto
      then have "hd (fst (replacer r ! p)) \<le> hd (fst (replacer r ! i))" using hdi hdp by arith
      moreover have "\<not> length (history r p) < replacer_k r" using all pc by simp
      ultimately show "kth_recent (replacer_k r) (history r p) \<le> kth_recent (replacer_k r) (history r i)"
        using full_kth[OF wf i ni] full_kth[OF wf pc] by (simp add: history_def)
    qed
    show ?thesis using ev pc mn by blast
  qed
qed

lemma init_7_2:
  "LRUKReplacer_init 7 2 =
     \<lparr>current_timestamp = 0, total_size = 7, replacer_size = 0, replacer_k = 2,
      replacer = [([], False), ([], False), ([], False), ([], False),
                  ([], False), ([], False), ([], False)]\<rparr>"
  by (simp add: LRUKReplacer_init_def numeral_eq_Suc)

lemma scenario_replacer:
  "run_replacer_calls (LRUKReplacer_init 7 2)
     [CallRecordAccess 1, CallRecordAccess 2, CallRecordAccess 3, CallRecordAccess 1,
      CallRecordAccess 2, CallSetEvictable 1 True, CallSetEvictable 2 True,
      CallSetEvictable 3 True]
   = Return \<lparr>current_timestamp = 5, total_size = 7, replacer_size = 3, replacer_k = 2,
       replacer = [([], False), ([0, 3], True), ([1, 4], True), ([2], True),
                   ([], False), ([], False), ([], False)]\<rparr>"
  by (simp add: RecordAccess_def SetEvictable_def init_7_2 Let_def size_t_inc_def)

lemma scenario_evict:
  "Evict \<lparr>current_timestamp = 5, total_size = 7, replacer_size = 3, replacer_k = 2,
       replacer = [([], False), ([0, 3], True), ([1, 4], True), ([2], True),
                   ([], False), ([], False), ([], False)]\<rparr> fid
   = (True, 3, \<lparr>current_timestamp = 5, total_size = 7, replacer_size = 2, replacer_k = 2,
       replacer = [([], False), ([0, 3], True), ([1, 4], True), ([], False),
                   ([], False), ([], False), ([], False)]\<rparr>)"
  by (simp add: Evict_def Let_def INT64_MAX_def size_t_sub_def size_t_dec_def)

text \<open>
  The constructor and the operations keep \<open>replacer_wf\<close>, as long as the clock stays
  below \<open>INT64_MAX\<close>.
\<close>

lemma wf_init: "1 \<le> kk \<Longrightarrow> replacer_wf (LRUKReplacer_init n kk)"
  by (simp add: replacer_wf_def LRUKReplacer_init_def INT64_MAX_def)

lemma wf_RecordAccess:
  assumes wf: "replacer_wf r" and ct: "Suc (current_timestamp r) < INT64_MAX"
    and ra: "RecordAccess r f = Return r'"
  shows "replacer_wf r'"
proof -
  let ?j = "nat f"
  let ?h = "fst (replacer r ! ?j)"
  let ?h1 = "if length ?h = replacer_k r then tl ?h else ?h"
  let ?e = "(?h1 @ [current_timestamp r], snd (replacer r ! ?j))"
  have rng: "f \<ge> 0" "f < total_size r" using ra by (auto simp: RecordAccess_def split: if_splits)
  then have j: "?j < length (replacer r)" using wf by (simp add: replacer_wf_def)
  have r': "r' = r\<lparr>replacer := (replacer r)[?j := ?e],
                   current_timestamp := size_t_inc (current_timestamp r)\<rparr>"
    using ra rng by (simp add: RecordAccess_def Let_def)
  have inc: "size_t_inc (current_timestamp r) = Suc (current_timestamp r)"
    using ct by (simp add: size_t_inc_def INT64_MAX_def)
  have old: "\<forall>e \<in> set (replacer r).
        (\<forall>t \<in> set (fst e). t < current_timestamp r) \<and> length (fst e) \<le> replacer_k r
        \<and> (snd e \<longrightarrow> fst e \<noteq> [])" and k1: "1 \<le> replacer_k r"
    using wf by (simp_all add: replacer_wf_def)
  have hj: "(\<forall>t \<in> set ?h. t < current_timestamp r) \<and> length ?h \<le> replacer_k r"
    using old j nth_mem by blast
  have h1set: "set ?h1 \<subseteq> set ?h" by (cases ?h) auto
  have new: "(\<forall>t \<in> set (fst ?e). t < Suc (current_timestamp r)) \<and> length (fst ?e) \<le> replacer_k r
        \<and> (snd ?e \<longrightarrow> fst ?e \<noteq> [])"
  proof (intro conjI)
    show "\<forall>t \<in> set (fst ?e). t < Suc (current_timestamp r)"
      using hj h1set by (auto simp: less_Suc_eq)
    show "length (fst ?e) \<le> replacer_k r" using hj k1 by (cases ?h) auto
    show "snd ?e \<longrightarrow> fst ?e \<noteq> []" by simp
  qed
  have all: "\<forall>e \<in> set ((replacer r)[?j := ?e]).
        (\<forall>t \<in> set (fst e). t < Suc (current_timestamp r)) \<and> length (fst e) \<le> replacer_k r
        \<and> (snd e \<longrightarrow> fst e \<noteq> [])"
  proof
    fix e assume "e \<in> set ((replacer r)[?j := ?e])"
    then have "e = ?e \<or> e \<in> set (replacer r)"
      using set_update_subset_insert[of "replacer r" ?j ?e] by auto
    then show "(\<forall>t \<in> set (fst e). t < Suc (current_timestamp r)) \<and> length (fst e) \<le> replacer_k r
        \<and> (snd e \<longrightarrow> fst e \<noteq> [])"
    proof
      assume "e = ?e" then show ?thesis using new by simp
    next
      assume "e \<in> set (replacer r)"
      then show ?thesis using old by (auto simp: less_Suc_eq)
    qed
  qed
  show ?thesis
    unfolding replacer_wf_def r' using all k1 ct wf inc by (simp add: replacer_wf_def)
qed

lemma wf_update_cleared:
  assumes wf: "replacer_wf r"
  shows "replacer_wf (r\<lparr>replacer := (replacer r)[j := ([], False)], replacer_size := n\<rparr>)"
proof -
  have "\<And>e. e \<in> set ((replacer r)[j := ([], False)]) \<Longrightarrow> e = ([], False) \<or> e \<in> set (replacer r)"
    using set_update_subset_insert[of "replacer r" j "([], False)"] by auto
  then show ?thesis using wf by (fastforce simp: replacer_wf_def)
qed

lemma wf_Evict: "replacer_wf r \<Longrightarrow> Evict r fid = (b, f, r') \<Longrightarrow> replacer_wf r'"
  by (auto simp: Evict_def Let_def wf_update_cleared split: if_splits)

lemma wf_Remove: "replacer_wf r \<Longrightarrow> Remove_frame r f = Return r' \<Longrightarrow> replacer_wf r'"
  by (auto simp: Remove_frame_def Let_def wf_update_cleared split: if_splits)

lemma wf_fields:
  assumes "replacer_wf r" "replacer_k r' = replacer_k r"
    "current_timestamp r' = current_timestamp r" "total_size r' = total_size r"
    "replacer r' = (replacer r)[j := e]"
    "(\<forall>t \<in> set (fst e). t < current_timestamp r) \<and> length (fst e) \<le> replacer_k r
        \<and> (snd e \<longrightarrow> fst e \<noteq> [])"
  shows "replacer_wf r'"
proof -
  have "\<And>x. x \<in> set ((replacer r)[j := e]) \<Longrightarrow> x = e \<or> x \<in> set (replacer r)"
    using set_update_subset_insert[of "replacer r" j e] by auto
  then have "\<forall>x \<in> set (replacer r').
        (\<forall>t \<in> set (fst x). t < current_timestamp r') \<and> length (fst x) \<le> replacer_k r'
        \<and> (snd x \<longrightarrow> fst x \<noteq> [])"
    using assms unfolding replacer_wf_def by metis
  then show ?thesis using assms(1-5) by (simp add: replacer_wf_def)
qed

lemma wf_SetEvictable:
  assumes wf: "replacer_wf r" and se: "SetEvictable r f b = Return r'"
  shows "replacer_wf r'"
proof -
  let ?j = "nat f"
  have rng: "f \<ge> 0 \<and> f < total_size r"
    using se by (cases "f \<ge> 0 \<and> f < total_size r") (simp_all add: SetEvictable_def)
  show ?thesis
  proof (cases "fst (replacer r ! ?j) = []")
    case True
    then have "r' = r" using se rng by (simp add: SetEvictable_def Let_def)
    then show ?thesis using wf by simp
  next
    case False
    have eq: "Return r' = SetEvictable r f b" using se by simp
    have flds: "replacer_k r' = replacer_k r \<and> current_timestamp r' = current_timestamp r
        \<and> total_size r' = total_size r
        \<and> replacer r' = (replacer r)[?j := (fst (replacer r ! ?j), b)]"
    proof (cases b)
      case True
      show ?thesis
      proof (cases "snd (replacer r ! ?j)")
        case True
        with \<open>b\<close> have "r' = r\<lparr>replacer := (replacer r)[?j := (fst (replacer r ! ?j), True)]\<rparr>"
          using eq rng False by (simp add: SetEvictable_def Let_def)
        then show ?thesis using \<open>b\<close> by simp
      next
        case F: False
        with \<open>b\<close> have "r' = r\<lparr>replacer_size := size_t_inc (replacer_size r),
            replacer := (replacer r)[?j := (fst (replacer r ! ?j), True)]\<rparr>"
          using eq rng False by (simp add: SetEvictable_def Let_def)
        then show ?thesis using \<open>b\<close> by simp
      qed
    next
      case nb: False
      show ?thesis
      proof (cases "snd (replacer r ! ?j)")
        case True
        with nb have "r' = r\<lparr>replacer_size := size_t_dec (replacer_size r),
            replacer := (replacer r)[?j := (fst (replacer r ! ?j), False)]\<rparr>"
          using eq rng False by (simp add: SetEvictable_def Let_def)
        then show ?thesis using nb by simp
      next
        case F: False
        with nb have "r' = r\<lparr>replacer := (replacer r)[?j := (fst (replacer r ! ?j), False)]\<rparr>"
          using eq rng False by (simp add: SetEvictable_def Let_def)
        then show ?thesis using nb by simp
      qed
    qed
    have "total_size r = int (length (replacer r))" using wf by (simp add: replacer_wf_def)
    then have j: "?j < length (replacer r)" using rng by linarith
    then have "replacer r ! ?j \<in> set (replacer r)" by simp
    then have ok: "(\<forall>t \<in> set (fst (replacer r ! ?j)). t < current_timestamp r)
        \<and> length (fst (replacer r ! ?j)) \<le> replacer_k r"
      using wf unfolding replacer_wf_def by blast
    show ?thesis
      by (rule wf_fields[OF wf, of r' ?j "(fst (replacer r ! ?j), b)"])
         (use flds ok False in simp_all)
  qed
qed

text \<open>
  C3. In a well-formed replacer state: if some evictable frame has fewer than \<open>K\<close> recorded
  accesses, \<open>Evict\<close> returns such a frame, the one whose first access is earliest among
  them; if there are evictable frames and all of them have \<open>K\<close> accesses, it returns the
  one whose \<open>K\<close>-th most recent access is oldest. With \<open>K = 2\<close>, after accesses to the
  frames 1, 2, 3, 1, 2 and all three made evictable, \<open>Evict\<close> returns frame 3.
\<close>

theorem C3_evict_policy:
  assumes "replacer_wf r"
  shows "(\<forall>i0 \<in> candidates r. length (history r i0) < replacer_k r \<longrightarrow>
            (\<exists>f r'. Evict r fid = (True, int f, r') \<and> f \<in> candidates r
               \<and> length (history r f) < replacer_k r
               \<and> (\<forall>i \<in> candidates r. length (history r i) < replacer_k r
                     \<longrightarrow> hd (history r f) \<le> hd (history r i))))
       \<and> (candidates r \<noteq> {} \<and> (\<forall>i \<in> candidates r. \<not> length (history r i) < replacer_k r) \<longrightarrow>
            (\<exists>f r'. Evict r fid = (True, int f, r') \<and> f \<in> candidates r
               \<and> (\<forall>i \<in> candidates r. kth_recent (replacer_k r) (history r f)
                                        \<le> kth_recent (replacer_k r) (history r i))))
       \<and> (\<exists>s s'. run_replacer_calls (LRUKReplacer_init 7 2)
                    [CallRecordAccess 1, CallRecordAccess 2, CallRecordAccess 3,
                     CallRecordAccess 1, CallRecordAccess 2, CallSetEvictable 1 True,
                     CallSetEvictable 2 True, CallSetEvictable 3 True] = Return s
                 \<and> Evict s fid = (True, 3, s'))"
proof (intro conjI)
  show "\<forall>i0 \<in> candidates r. length (history r i0) < replacer_k r \<longrightarrow>
            (\<exists>f r'. Evict r fid = (True, int f, r') \<and> f \<in> candidates r
               \<and> length (history r f) < replacer_k r
               \<and> (\<forall>i \<in> candidates r. length (history r i) < replacer_k r
                     \<longrightarrow> hd (history r f) \<le> hd (history r i)))"
    using evict_lt_case[OF assms] by blast
  show "candidates r \<noteq> {} \<and> (\<forall>i \<in> candidates r. \<not> length (history r i) < replacer_k r) \<longrightarrow>
            (\<exists>f r'. Evict r fid = (True, int f, r') \<and> f \<in> candidates r
               \<and> (\<forall>i \<in> candidates r. kth_recent (replacer_k r) (history r f)
                                        \<le> kth_recent (replacer_k r) (history r i)))"
  proof
    assume a: "candidates r \<noteq> {} \<and> (\<forall>i \<in> candidates r. \<not> length (history r i) < replacer_k r)"
    then obtain i0 where "i0 \<in> candidates r" by blast
    then show "\<exists>f r'. Evict r fid = (True, int f, r') \<and> f \<in> candidates r
               \<and> (\<forall>i \<in> candidates r. kth_recent (replacer_k r) (history r f)
                                        \<le> kth_recent (replacer_k r) (history r i))"
      using evict_full_case[OF assms] a by blast
  qed
  show "\<exists>s s'. run_replacer_calls (LRUKReplacer_init 7 2)
                    [CallRecordAccess 1, CallRecordAccess 2, CallRecordAccess 3,
                     CallRecordAccess 1, CallRecordAccess 2, CallSetEvictable 1 True,
                     CallSetEvictable 2 True, CallSetEvictable 3 True] = Return s
                 \<and> Evict s fid = (True, 3, s')"
    using scenario_replacer scenario_evict by blast
qed

lemma wf_scenario:
  "replacer_wf \<lparr>current_timestamp = 5, total_size = 7, replacer_size = 3, replacer_k = 2,
       replacer = [([], False), ([0, 3], True), ([1, 4], True), ([2], True),
                   ([], False), ([], False), ([], False)]\<rparr>"
  by (simp add: replacer_wf_def INT64_MAX_def)

lemma wf_two_full:
  "replacer_wf \<lparr>current_timestamp = 4, total_size = 2, replacer_size = 2, replacer_k = 2,
       replacer = [([1, 2], True), ([0, 3], True)]\<rparr>"
  by (simp add: replacer_wf_def INT64_MAX_def)

theorem C3_evict_policy_witness:
  "replacer_wf \<lparr>current_timestamp = 5, total_size = 7, replacer_size = 3, replacer_k = 2,
       replacer = [([], False), ([0, 3], True), ([1, 4], True), ([2], True),
                   ([], False), ([], False), ([], False)]\<rparr>
   \<and> 3 \<in> candidates \<lparr>current_timestamp = 5, total_size = 7, replacer_size = 3, replacer_k = 2,
       replacer = [([], False), ([0, 3], True), ([1, 4], True), ([2], True),
                   ([], False), ([], False), ([], False)]\<rparr>
   \<and> (\<exists>f r'. Evict \<lparr>current_timestamp = 5, total_size = 7, replacer_size = 3, replacer_k = 2,
       replacer = [([], False), ([0, 3], True), ([1, 4], True), ([2], True),
                   ([], False), ([], False), ([], False)]\<rparr> 0 = (True, int f, r')
         \<and> length (history \<lparr>current_timestamp = 5, total_size = 7, replacer_size = 3,
              replacer_k = 2,
              replacer = [([], False), ([0, 3], True), ([1, 4], True), ([2], True),
                   ([], False), ([], False), ([], False)]\<rparr> f) < 2)
   \<and> replacer_wf \<lparr>current_timestamp = 4, total_size = 2, replacer_size = 2, replacer_k = 2,
       replacer = [([1, 2], True), ([0, 3], True)]\<rparr>
   \<and> candidates \<lparr>current_timestamp = 4, total_size = 2, replacer_size = 2, replacer_k = 2,
       replacer = [([1, 2], True), ([0, 3], True)]\<rparr> \<noteq> {}
   \<and> (\<exists>f r'. Evict \<lparr>current_timestamp = 4, total_size = 2, replacer_size = 2, replacer_k = 2,
       replacer = [([1, 2], True), ([0, 3], True)]\<rparr> 0 = (True, int f, r')
         \<and> kth_recent 2 (history \<lparr>current_timestamp = 4, total_size = 2, replacer_size = 2,
              replacer_k = 2, replacer = [([1, 2], True), ([0, 3], True)]\<rparr> f) \<le> 0)"
proof -
  let ?a = "\<lparr>current_timestamp = 5, total_size = 7, replacer_size = 3, replacer_k = 2,
       replacer = [([], False), ([0, 3], True), ([1, 4], True), ([2], True),
                   ([], False), ([], False), ([], False)]\<rparr>"
  let ?b = "\<lparr>current_timestamp = 4, total_size = 2, replacer_size = 2, replacer_k = 2,
       replacer = [([1, 2], True), ([0, 3], True)]\<rparr>"
  have ca: "3 \<in> candidates ?a" "length (history ?a 3) < replacer_k ?a"
    by (simp_all add: candidates_def history_def)
  have cb: "1 \<in> candidates ?b" by (simp add: candidates_def history_def)
  have allb: "\<forall>i \<in> candidates ?b. \<not> length (history ?b i) < replacer_k ?b"
    by (auto simp: candidates_def history_def less_Suc_eq numeral_2_eq_2)
  have k1: "kth_recent (replacer_k ?b) (history ?b 1) = 0"
    by (simp add: kth_recent_def history_def)
  from C3_evict_policy[OF wf_scenario, of 0] ca
  obtain f r' where a: "Evict ?a 0 = (True, int f, r')" "length (history ?a f) < replacer_k ?a"
    by blast
  from C3_evict_policy[OF wf_two_full, of 0] cb allb
  obtain g s' where b: "Evict ?b 0 = (True, int g, s')"
    "\<forall>i \<in> candidates ?b. kth_recent (replacer_k ?b) (history ?b g)
                                        \<le> kth_recent (replacer_k ?b) (history ?b i)"
    by blast
  have "kth_recent 2 (history ?b g) \<le> 0" using b(2) cb k1 by fastforce
  then show ?thesis using wf_scenario wf_two_full ca(1) cb a b(1) by auto
qed

section \<open>Buffer pool manager: fetch and the dirty bit, delete of a page that is not resident\<close>

lemmas bpm_eval_defs =
  NewPgImp_def UnpinPgImp_def FetchPgImp_def DeletePgImp_def
  BufferPoolManagerInstance_init_def page_at_def set_page_def table_Insert_def pin_frame_def
  Insert_def Find_def IndexOf_def bucket_at_def Bucket_Insert_def IsFull_def put_bucket_def
  ExtendibleHashTable_init_def new_Bucket_def std_hash_int_def
  RecordAccess_def SetEvictable_def LRUKReplacer_init_def size_t_inc_def size_t_dec_def Let_def

text \<open>
  A fetch of a resident page whose frame is in range returns with the dirty flag of the
  page set, whatever the flag was.
\<close>

lemma fetch_resident_sets_dirty:
  assumes "Find std_hash_int (page_table b) p = Some f" "nat f < length (pages b)"
    "FetchPgImp b p = Return (r, b')"
  shows "r = Some f \<and> is_dirty (page_at b' f)"
proof -
  from assms(1,3) obtain b1 where b1: "pin_frame b f = Return b1"
    and r: "(r, b') = (Some f, set_page b1 f
        ((page_at b1 f)\<lparr>is_dirty := True, pin_count := pin_count (page_at b1 f) + 1\<rparr>))"
    by (cases "pin_frame b f") (simp_all add: FetchPgImp_def Let_def)
  have "pages b1 = pages b"
    using b1 by (cases "RecordAccess (bpm_replacer b) f";
        cases "SetEvictable (case RecordAccess (bpm_replacer b) f of Return x \<Rightarrow> x) f False")
      (auto simp: pin_frame_def)
  then show ?thesis using r assms(2) by (simp add: set_page_def page_at_def)
qed

text \<open>
  C1. The claim that a fetch leaves the dirty flag alone fails on the code: in a pool of
  one frame, a new page that is unpinned clean is not dirty; after \<open>FetchPgImp\<close> of the
  same page the flag is set, though no \<open>UnpinPgImp\<close> with \<open>is_dirty = true\<close> took place.
\<close>

theorem C1_fetch_sets_dirty: "fetch_scenario u = Return (False, True)"
  by (simp add: fetch_scenario_def bpm_eval_defs)

lemma bind_never_false:
  "(\<And>x. f x \<noteq> Return (False, z)) \<Longrightarrow> bind_outcome m f \<noteq> Return (False, z)"
  by (cases m) auto

lemma Delete_unpinned:
  assumes "Find std_hash_int (page_table b) p = Some f" "\<not> 0 < pin_count (page_at b f)"
  shows "DeletePgImp b p \<noteq> Return (False, b')"
  unfolding DeletePgImp_def Let_def using assms
  apply (simp only: option.case if_False)
  apply (rule bind_never_false)
  apply (rule bind_never_false)
  apply simp
  done

text \<open>
  C10. \<open>DeletePgImp\<close> of a page id that the page table does not hold returns true and
  leaves the whole manager unchanged; and whenever \<open>DeletePgImp\<close> returns false, the page
  is resident with a pin count above 0 (and the manager is unchanged).
\<close>

theorem C10_delete_not_resident:
  "(Find std_hash_int (page_table b) p = None \<longrightarrow> DeletePgImp b p = Return (True, b))
   \<and> (\<forall>b'. DeletePgImp b p = Return (False, b') \<longrightarrow>
          b' = b \<and> (\<exists>f. Find std_hash_int (page_table b) p = Some f
                        \<and> 0 < pin_count (page_at b f)))"
proof (intro conjI allI impI)
  assume "Find std_hash_int (page_table b) p = None"
  then show "DeletePgImp b p = Return (True, b)" by (simp add: DeletePgImp_def)
next
  fix b' assume d: "DeletePgImp b p = Return (False, b')"
  then obtain f where f: "Find std_hash_int (page_table b) p = Some f"
    by (cases "Find std_hash_int (page_table b) p") (auto simp: DeletePgImp_def)
  have pin: "0 < pin_count (page_at b f)" using Delete_unpinned[OF f] d by blast
  show "b' = b" using d f pin by (simp add: DeletePgImp_def)
  show "\<exists>f. Find std_hash_int (page_table b) p = Some f \<and> 0 < pin_count (page_at b f)"
    using f pin by blast
qed

lemma empty_pool_Find:
  "Find std_hash_int (page_table (BufferPoolManagerInstance_init 1 2)) 5 = None"
  by (simp add: bpm_eval_defs)

lemma one_pinned_page_Delete: "DeletePgImp one_pinned_page 0 = Return (False, one_pinned_page)"
  by (simp add: one_pinned_page_def bpm_eval_defs)

theorem C10_delete_not_resident_witness:
  "Find std_hash_int (page_table (BufferPoolManagerInstance_init 1 2)) 5 = None
   \<and> DeletePgImp (BufferPoolManagerInstance_init 1 2) 5
       = Return (True, BufferPoolManagerInstance_init 1 2)
   \<and> DeletePgImp one_pinned_page 0 = Return (False, one_pinned_page)
   \<and> (\<exists>f. Find std_hash_int (page_table one_pinned_page) 0 = Some f
          \<and> 0 < pin_count (page_at one_pinned_page f))"
  using C10_delete_not_resident[of "BufferPoolManagerInstance_init 1 2" 5]
    C10_delete_not_resident[of one_pinned_page 0] empty_pool_Find one_pinned_page_Delete
  by blast
section \<open>Lock manager: the granted requests of a queue are compatible\<close>


lemma CheckLock_conflicts: "CheckLock a b \<longleftrightarrow> \<not> conflicts a b"
  by (cases a; cases b) (simp_all add: CheckLock_def)

lemma CheckLock_sym: "CheckLock a b = CheckLock b a"
  by (cases a; cases b) (simp_all add: CheckLock_def)

lemma find_txn_None: "find_txn rq t = None \<longleftrightarrow> t \<notin> txn_id ` set rq"
  by (induction rq) auto

lemma find_txn_Some: "find_txn rq t = Some r \<Longrightarrow> r \<in> set rq \<and> txn_id r = t"
  by (induction rq) (auto split: if_splits)

lemma find_granted_Some: "find_granted rq t = Some r \<Longrightarrow> r \<in> set rq \<and> txn_id r = t \<and> granted r"
  by (induction rq) (auto split: if_splits)

lemma set_erase_first: "set (erase_first rq t) \<subseteq> set rq"
  by (induction rq) auto

lemma set_erase_granted: "set (erase_granted rq t) \<subseteq> set rq"
  by (induction rq) auto

lemma set_erase_txn: "set (erase_txn rq t) = {r \<in> set rq. txn_id r \<noteq> t}"
  by (induction rq) auto

lemma distinct_erase_first: "distinct (map txn_id rq) \<Longrightarrow> distinct (map txn_id (erase_first rq t))"
proof (induction rq)
  case (Cons a rq)
  then show ?case using set_erase_first[of rq t] by (auto simp: image_iff)
qed simp

lemma distinct_erase_granted: "distinct (map txn_id rq) \<Longrightarrow> distinct (map txn_id (erase_granted rq t))"
proof (induction rq)
  case (Cons a rq)
  then show ?case using set_erase_granted[of rq t] by (auto simp: image_iff)
qed simp

lemma distinct_erase_txn: "distinct (map txn_id rq) \<Longrightarrow> distinct (map txn_id (erase_txn rq t))"
  by (induction rq) (auto simp: set_erase_txn)

lemma erase_first_gone: "distinct (map txn_id rq) \<Longrightarrow> t \<notin> txn_id ` set (erase_first rq t)"
proof (induction rq)
  case (Cons a rq)
  then show ?case using set_erase_first[of rq t] by (auto simp: image_iff)
qed simp

lemma kept_erase_first: "r \<in> set rq \<Longrightarrow> txn_id r \<noteq> t \<Longrightarrow> r \<in> set (erase_first rq t)"
  by (induction rq) auto

lemma kept_erase_granted: "r \<in> set rq \<Longrightarrow> txn_id r \<noteq> t \<Longrightarrow> r \<in> set (erase_granted rq t)"
  by (induction rq) auto

lemma map_txn_id_set_granted: "map txn_id (set_granted rq t) = map txn_id rq"
  by (induction rq) auto

lemma kept_set_granted: "r \<in> set rq \<Longrightarrow> txn_id r \<noteq> t \<Longrightarrow> r \<in> set (set_granted rq t)"
  by (induction rq) auto

lemma in_set_granted:
  "r' \<in> set (set_granted rq t) \<Longrightarrow>
     (r' \<in> set rq \<and> txn_id r' \<noteq> t) \<or> (\<exists>r \<in> set rq. txn_id r = t \<and> r' = r\<lparr>granted := True\<rparr>)"
  by (induction rq) (auto split: if_splits)

lemma own_set_granted:
  "r \<in> set rq \<Longrightarrow> txn_id r = t \<Longrightarrow> r\<lparr>granted := True\<rparr> \<in> set (set_granted rq t)"
  by (induction rq) auto

lemma GrantLock_first_all:
  "GrantLock_first rq lm \<Longrightarrow> r \<in> set rq \<Longrightarrow> granted r \<Longrightarrow> CheckLock (lock_mode r) lm"
  by (induction rq) (auto split: if_splits)

lemma queue_ok_Nil: "queue_ok []"
  by (simp add: queue_ok_def)

lemma queue_ok_append:
  assumes "queue_ok rq" "t \<notin> txn_id ` set rq" "txn_id lr = t" "\<not> granted lr"
  shows "queue_ok (rq @ [lr])"
  using assms unfolding queue_ok_def by auto

lemma queue_ok_subset:
  assumes "queue_ok rq" "set rq' \<subseteq> set rq" "distinct (map txn_id rq')"
  shows "queue_ok rq'"
  using assms unfolding queue_ok_def by blast

lemma queue_ok_grant:
  assumes ok: "queue_ok rq" and g: "GrantLock_first rq lm"
    and own: "\<forall>r\<in>set rq. txn_id r = t \<longrightarrow> lock_mode r = lm"
  shows "queue_ok (set_granted rq t)"
  unfolding queue_ok_def
proof (intro conjI ballI impI)
  show "distinct (map txn_id (set_granted rq t))"
    using ok by (simp add: map_txn_id_set_granted queue_ok_def)
next
  fix r1 r2
  assume r1: "r1 \<in> set (set_granted rq t)" and r2: "r2 \<in> set (set_granted rq t)"
    and h: "granted r1 \<and> granted r2 \<and> txn_id r1 \<noteq> txn_id r2"
  from in_set_granted[OF r1] in_set_granted[OF r2] h
  consider (oo) "r1 \<in> set rq" "r2 \<in> set rq" "txn_id r1 \<noteq> t" "txn_id r2 \<noteq> t"
    | (ot) "r1 \<in> set rq" "txn_id r1 \<noteq> t" "\<exists>r \<in> set rq. txn_id r = t \<and> r2 = r\<lparr>granted := True\<rparr>"
    | (to) "r2 \<in> set rq" "txn_id r2 \<noteq> t" "\<exists>r \<in> set rq. txn_id r = t \<and> r1 = r\<lparr>granted := True\<rparr>"
    by auto
  then show "CheckLock (lock_mode r1) (lock_mode r2)"
  proof cases
    case oo
    then show ?thesis using ok h unfolding queue_ok_def by blast
  next
    case ot
    then obtain r where "r \<in> set rq" "txn_id r = t" "r2 = r\<lparr>granted := True\<rparr>" by blast
    then have "lock_mode r2 = lm" using own by simp
    then show ?thesis using GrantLock_first_all[OF g ot(1)] h by simp
  next
    case to
    then obtain r where "r \<in> set rq" "txn_id r = t" "r1 = r\<lparr>granted := True\<rparr>" by blast
    then have "lock_mode r1 = lm" using own by simp
    then show ?thesis using GrantLock_first_all[OF g to(1)] h CheckLock_sym by simp
  qed
qed


lemma TableLockRemove_id [simp]: "transaction_id (TableLockRemove txn lm oi) = transaction_id txn"
  by (cases lm) simp_all
lemma TableLockAllocate_id [simp]: "transaction_id (TableLockAllocate txn lm oi) = transaction_id txn"
  by (cases lm) simp_all
lemma RowLockRemove_id [simp]: "transaction_id (RowLockRemove txn lm oi ri) = transaction_id txn"
  by (cases lm) simp_all
lemma RowLockAllocate_id [simp]: "transaction_id (RowLockAllocate txn lm oi ri) = transaction_id txn"
  by (cases lm) simp_all
lemma SetState_id [simp]: "transaction_id (SetState txn l lm) = transaction_id txn"
  by (simp add: SetState_def)
lemma TableLockRemove_all_id [simp]: "transaction_id (TableLockRemove_all txn rq t) = transaction_id txn"
  by (induction rq arbitrary: txn) auto
lemma RowLockRemove_all_id [simp]: "transaction_id (RowLockRemove_all txn rq t ri) = transaction_id txn"
  by (induction rq arbitrary: txn) auto


lemma table_queue_put [simp]: "table_queue (put_table_queue m oi q) oi = q"
  by (simp add: table_queue_def put_table_queue_def)

lemma table_lock_map_put [simp]:
  "table_lock_map (put_table_queue m oi q) o' = (if o' = oi then Some q else table_lock_map m o')"
  by (simp add: put_table_queue_def)

lemma row_lock_map_put_table [simp]: "row_lock_map (put_table_queue m oi q) = row_lock_map m"
  by (simp add: put_table_queue_def)

lemma table_effect_refl: "queue_ok (request_queue (table_queue m oi)) \<Longrightarrow> table_effect t oi m m"
  by (simp add: table_effect_def)

lemma table_effect_put:
  assumes "queue_ok (request_queue q)"
    "\<forall>r \<in> set (request_queue (table_queue m oi)). txn_id r \<noteq> t \<longrightarrow> r \<in> set (request_queue q)"
  shows "table_effect t oi m (put_table_queue m oi q)"
  using assms by (simp add: table_effect_def)

lemma table_effect_trans:
  "table_effect t oi m m1 \<Longrightarrow> table_effect t oi m1 m2 \<Longrightarrow> table_effect t oi m m2"
  by (simp add: table_effect_def)

lemma own_from_has:
  assumes "queue_ok rq" "has_request rq t lm"
  shows "\<forall>r\<in>set rq. txn_id r = t \<longrightarrow> lock_mode r = lm"
proof (intro ballI impI)
  fix r assume r: "r \<in> set rq" "txn_id r = t"
  from assms(2) obtain r0 where r0: "r0 \<in> set rq" "txn_id r0 = t" "lock_mode r0 = lm"
    by (auto simp: has_request_def)
  have "inj_on txn_id (set rq)" using assms(1) by (simp add: queue_ok_def distinct_map)
  then have "r = r0" using r r0 by (auto dest: inj_onD)
  then show "lock_mode r = lm" using r0 by simp
qed

lemma GrantLock_first_if: "GrantLock que lm t \<Longrightarrow> GrantLock_first (request_queue que) lm"
  by (simp add: GrantLock_def split: if_splits)

lemma has_request_set_granted:
  "has_request rq t lm \<Longrightarrow> has_request (set_granted rq t) t lm"
proof -
  assume "has_request rq t lm"
  then obtain r where r: "r \<in> set rq" "txn_id r = t" "lock_mode r = lm"
    by (auto simp: has_request_def)
  from own_set_granted[OF r(1,2)] r show ?thesis unfolding has_request_def
    by (intro bexI[of _ "r\<lparr>granted := True\<rparr>"]) simp_all
qed

lemma try_effect:
  assumes ok: "queue_ok (request_queue (table_queue mi oi))"
    and own: "\<forall>r\<in>set (request_queue (table_queue mi oi)).
                 txn_id r = transaction_id txn \<longrightarrow> lock_mode r = lm"
    and eq: "LockTable_try mi txn lm oi up = (res, txn', m')"
  shows "table_effect (transaction_id txn) oi mi m' \<and> transaction_id txn' = transaction_id txn
     \<and> (has_request (request_queue (table_queue mi oi)) (transaction_id txn) lm
          \<longrightarrow> has_request (request_queue (table_queue m' oi)) (transaction_id txn) lm)"
proof (cases "GrantLock (table_queue mi oi) lm (transaction_id txn)")
  case False
  then have "m' = mi" "txn' = txn" using eq by (simp_all add: LockTable_try_def Let_def)
  then show ?thesis using table_effect_refl[OF ok] by simp
next
  case True
  let ?rq = "request_queue (table_queue mi oi)"
  let ?t = "transaction_id txn"
  define q' where "q' = (if up
      then (table_queue mi oi)\<lparr>request_queue := set_granted ?rq ?t, upgrading := INVALID_TXN_ID\<rparr>
      else (table_queue mi oi)\<lparr>request_queue := set_granted ?rq ?t\<rparr>)"
  have m': "m' = put_table_queue mi oi q'" and t': "txn' = TableLockAllocate txn lm oi"
    using eq True by (auto simp: LockTable_try_def Let_def q'_def)
  have rq': "request_queue q' = set_granted ?rq ?t" by (simp add: q'_def)
  have okq: "queue_ok (request_queue q')"
    unfolding rq' by (rule queue_ok_grant[OF ok GrantLock_first_if[OF True] own])
  have kept: "\<forall>r \<in> set ?rq. txn_id r \<noteq> ?t \<longrightarrow> r \<in> set (request_queue q')"
    unfolding rq' using kept_set_granted by blast
  show ?thesis
    using table_effect_put[OF okq kept] has_request_set_granted[of ?rq ?t lm]
    by (simp add: m' t' rq')
qed

lemma has_request_append:
  "has_request (rq @ [\<lparr>txn_id = t, lock_mode = lm, oid = oi, rid = ri, granted = False\<rparr>]) t lm"
  by (simp add: has_request_def)

lemma LockTable_effect:
  assumes ok: "queue_ok (request_queue (table_queue m oi))"
    and eq: "LockTable m txn lm oi = (res, txn', m')"
  shows "table_effect (transaction_id txn) oi m m' \<and> transaction_id txn' = transaction_id txn
     \<and> (\<forall>u. res = Waits u
           \<longrightarrow> has_request (request_queue (table_queue m' oi)) (transaction_id txn) lm)"
proof (cases "LockTable_check txn lm")
  case (Some r)
  have nw: "\<forall>u. r \<noteq> Waits u"
    using Some by (auto simp: LockTable_check_def Let_def split: if_splits)
  from Some eq have "m' = m \<and> transaction_id txn' = transaction_id txn \<and> (\<forall>u. res \<noteq> Waits u)"
    using nw by (cases r) (auto simp: LockTable_def abort_with_def)
  then show ?thesis using table_effect_refl[OF ok] by simp
next
  case None
  let ?t = "transaction_id txn"
  let ?que = "table_queue m oi"
  let ?m1 = "put_table_queue m oi ?que"
  let ?lr = "\<lparr>txn_id = ?t, lock_mode = lm, oid = oi, rid = None, granted = False\<rparr>"
  have e1: "table_effect ?t oi m ?m1" by (rule table_effect_put[OF ok]) simp
  show ?thesis
  proof (cases "find_txn (request_queue ?que) ?t")
    case fn: None
    let ?q1 = "?que\<lparr>request_queue := request_queue ?que @ [?lr]\<rparr>"
    let ?mi = "put_table_queue ?m1 oi ?q1"
    have eq': "LockTable_try ?mi txn lm oi False = (res, txn', m')"
      using eq None fn by (simp add: LockTable_def Let_def)
    have absent: "?t \<notin> txn_id ` set (request_queue ?que)" using fn by (simp add: find_txn_None)
    have ok1: "queue_ok (request_queue (table_queue ?mi oi))"
      using queue_ok_append[OF ok absent, of ?lr] by simp
    have own: "\<forall>r\<in>set (request_queue (table_queue ?mi oi)). txn_id r = ?t \<longrightarrow> lock_mode r = lm"
      using absent by (auto simp: image_iff)
    have e2: "table_effect ?t oi m ?mi"
      using ok1 by (simp add: table_effect_def)
    have hr: "has_request (request_queue (table_queue ?mi oi)) ?t lm"
      using has_request_append by simp
    from try_effect[OF ok1 own eq'] hr
    show ?thesis using table_effect_trans[OF e2] by blast
  next
    case (Some it)
    show ?thesis
    proof (cases "lock_mode it = lm \<or> (upgrading ?que \<noteq> INVALID_TXN_ID \<and> upgrading ?que \<noteq> ?t)
                  \<or> incompatible_upgrade txn lm oi")
      case True
      then have "m' = ?m1 \<and> transaction_id txn' = ?t \<and> (\<forall>u. res \<noteq> Waits u)"
        using eq None Some by (auto simp: LockTable_def Let_def abort_with_def split: if_splits)
      then show ?thesis using e1 by simp
    next
      case False
      let ?q1 = "?que\<lparr>upgrading := ?t, request_queue := erase_first (request_queue ?que) ?t @ [?lr]\<rparr>"
      let ?mi = "put_table_queue ?m1 oi ?q1"
      let ?txn1 = "TableLockRemove txn (lock_mode it) oi"
      have eq': "LockTable_try ?mi ?txn1 lm oi True = (res, txn', m')"
        using eq None Some False by (auto simp: LockTable_def Let_def)
      have d: "distinct (map txn_id (request_queue ?que))" using ok by (simp add: queue_ok_def)
      have absent: "?t \<notin> txn_id ` set (erase_first (request_queue ?que) ?t)"
        by (rule erase_first_gone[OF d])
      have ok0: "queue_ok (erase_first (request_queue ?que) ?t)"
        by (rule queue_ok_subset[OF ok set_erase_first distinct_erase_first[OF d]])
      have ok1: "queue_ok (request_queue (table_queue ?mi oi))"
        using queue_ok_append[OF ok0 absent, of ?lr] by simp
      have own: "\<forall>r\<in>set (request_queue (table_queue ?mi oi)).
                   txn_id r = transaction_id ?txn1 \<longrightarrow> lock_mode r = lm"
        using absent by (auto simp: image_iff)
      have e2: "table_effect ?t oi m ?mi"
        using ok1 kept_erase_first by (simp add: table_effect_def)
      have hr: "has_request (request_queue (table_queue ?mi oi)) (transaction_id ?txn1) lm"
        using has_request_append by simp
      from try_effect[OF ok1 own eq'] hr
      show ?thesis using table_effect_trans[OF e2] by simp
    qed
  qed
qed

lemma wake_effect:
  assumes ok: "queue_ok (request_queue (table_queue m oi))"
    and hr: "has_request (request_queue (table_queue m oi)) (transaction_id txn) lm"
    and eq: "LockTable_wake m txn lm oi up = (res, txn', m')"
  shows "table_effect (transaction_id txn) oi m m' \<and> transaction_id txn' = transaction_id txn
     \<and> (\<forall>u. res = Waits u
           \<longrightarrow> has_request (request_queue (table_queue m' oi)) (transaction_id txn) lm)"
proof (cases "txn_state txn = ABORTED")
  case True
  let ?rq = "request_queue (table_queue m oi)"
  let ?t = "transaction_id txn"
  define q' where "q' = (if upgrading (table_queue m oi) = ?t
      then (table_queue m oi)\<lparr>request_queue := erase_txn ?rq ?t, upgrading := INVALID_TXN_ID\<rparr>
      else (table_queue m oi)\<lparr>request_queue := erase_txn ?rq ?t\<rparr>)"
  have m': "m' = put_table_queue m oi q'"
    and t': "txn' = TableLockRemove_all txn ?rq ?t" and r: "res = Returns False"
    using eq True by (auto simp: LockTable_wake_def Let_def q'_def)
  have rq': "request_queue q' = erase_txn ?rq ?t" by (simp add: q'_def)
  have d: "distinct (map txn_id ?rq)" using ok by (simp add: queue_ok_def)
  have okq: "queue_ok (request_queue q')"
    unfolding rq' by (rule queue_ok_subset[OF ok _ distinct_erase_txn[OF d]]) (auto simp: set_erase_txn)
  have kept: "\<forall>r \<in> set ?rq. txn_id r \<noteq> ?t \<longrightarrow> r \<in> set (request_queue q')"
    unfolding rq' by (simp add: set_erase_txn)
  show ?thesis using table_effect_put[OF okq kept] by (simp add: m' t' r)
next
  case False
  then have eq': "LockTable_try m txn lm oi up = (res, txn', m')"
    using eq by (simp add: LockTable_wake_def Let_def)
  have w: "\<forall>u. res = Waits u \<longrightarrow> m' = m"
    using eq' by (auto simp: LockTable_try_def Let_def split: if_splits)
  from try_effect[OF ok own_from_has[OF ok hr] eq'] hr show ?thesis by blast
qed

lemma Unlock_effect:
  assumes ok: "queue_ok (request_queue (table_queue m oi))"
    and eq: "UnlockTable m txn oi = (res, txn', m')"
  shows "table_effect (transaction_id txn) oi m m' \<and> transaction_id txn' = transaction_id txn
     \<and> (\<forall>u. res \<noteq> Waits u)"
proof (cases "table_lock_map m oi")
  case None
  then show ?thesis using eq table_effect_refl[OF ok] by (auto simp: UnlockTable_def abort_with_def)
next
  case (Some que)
  then have tq: "table_queue m oi = que" by (simp add: table_queue_def)
  let ?t = "transaction_id txn"
  show ?thesis
  proof (cases "find_granted (request_queue que) ?t")
    case None
    then show ?thesis using eq Some table_effect_refl[OF ok]
      by (auto simp: UnlockTable_def abort_with_def Let_def split: if_splits)
  next
    case (Some it)
    show ?thesis
    proof (cases "exclusive_row_lock_set txn oi \<noteq> {} \<or> shared_row_lock_set txn oi \<noteq> {}")
      case True
      then show ?thesis using eq \<open>table_lock_map m oi = Some que\<close> table_effect_refl[OF ok]
        by (auto simp: UnlockTable_def abort_with_def Let_def split: if_splits)
    next
      case False
      define q' where "q' = (if upgrading que \<noteq> INVALID_TXN_ID \<and> upgrading que = ?t
          then que\<lparr>upgrading := INVALID_TXN_ID,
                   request_queue := erase_granted (request_queue que) ?t\<rparr>
          else que\<lparr>request_queue := erase_granted (request_queue que) ?t\<rparr>)"
      have m': "m' = put_table_queue m oi q'"
        and t': "transaction_id txn' = ?t" and r: "res = Returns True"
        using eq \<open>table_lock_map m oi = Some que\<close> Some False
        by (auto simp: UnlockTable_def Let_def q'_def)
      have rq': "request_queue q' = erase_granted (request_queue que) ?t" by (simp add: q'_def)
      have d: "distinct (map txn_id (request_queue que))" using ok tq by (simp add: queue_ok_def)
      have okq: "queue_ok (request_queue q')"
        unfolding rq' using queue_ok_subset[OF _ set_erase_granted distinct_erase_granted[OF d]] ok tq
        by simp
      have kept: "\<forall>r \<in> set (request_queue (table_queue m oi)). txn_id r \<noteq> ?t \<longrightarrow> r \<in> set (request_queue q')"
        unfolding rq' tq using kept_erase_granted by blast
      show ?thesis using table_effect_put[OF okq kept] by (simp add: m' t' r)
    qed
  qed
qed

lemma row_queue_put [simp]: "row_queue (put_row_queue m oi q) oi = q"
  by (simp add: row_queue_def put_row_queue_def)

lemma row_lock_map_put [simp]:
  "row_lock_map (put_row_queue m oi q) o' = (if o' = oi then Some q else row_lock_map m o')"
  by (simp add: put_row_queue_def)

lemma table_lock_map_put_row [simp]: "table_lock_map (put_row_queue m oi q) = table_lock_map m"
  by (simp add: put_row_queue_def)

lemma row_effect_refl: "queue_ok (request_queue (row_queue m oi)) \<Longrightarrow> row_effect t oi m m"
  by (simp add: row_effect_def)

lemma row_effect_put:
  assumes "queue_ok (request_queue q)"
    "\<forall>r \<in> set (request_queue (row_queue m oi)). txn_id r \<noteq> t \<longrightarrow> r \<in> set (request_queue q)"
  shows "row_effect t oi m (put_row_queue m oi q)"
  using assms by (simp add: row_effect_def)

lemma row_effect_trans:
  "row_effect t oi m m1 \<Longrightarrow> row_effect t oi m1 m2 \<Longrightarrow> row_effect t oi m m2"
  by (simp add: row_effect_def)

lemma row_try_effect:
  assumes ok: "queue_ok (request_queue (row_queue mi oi))"
    and own: "\<forall>r\<in>set (request_queue (row_queue mi oi)).
                 txn_id r = transaction_id txn \<longrightarrow> lock_mode r = lm"
    and eq: "LockRow_try mi txn lm oo oi up = (res, txn', m')"
  shows "row_effect (transaction_id txn) oi mi m' \<and> transaction_id txn' = transaction_id txn
     \<and> (has_request (request_queue (row_queue mi oi)) (transaction_id txn) lm
          \<longrightarrow> has_request (request_queue (row_queue m' oi)) (transaction_id txn) lm)"
proof (cases "GrantLock (row_queue mi oi) lm (transaction_id txn)")
  case False
  then have "m' = mi" "txn' = txn" using eq by (simp_all add: LockRow_try_def Let_def)
  then show ?thesis using row_effect_refl[OF ok] by simp
next
  case True
  let ?rq = "request_queue (row_queue mi oi)"
  let ?t = "transaction_id txn"
  define q' where "q' = (if up
      then (row_queue mi oi)\<lparr>request_queue := set_granted ?rq ?t, upgrading := ?t\<rparr>
      else (row_queue mi oi)\<lparr>request_queue := set_granted ?rq ?t\<rparr>)"
  have m': "m' = put_row_queue mi oi q'" and t': "txn' = RowLockAllocate txn lm oo oi"
    using eq True by (auto simp: LockRow_try_def Let_def q'_def)
  have rq': "request_queue q' = set_granted ?rq ?t" by (simp add: q'_def)
  have okq: "queue_ok (request_queue q')"
    unfolding rq' by (rule queue_ok_grant[OF ok GrantLock_first_if[OF True] own])
  have kept: "\<forall>r \<in> set ?rq. txn_id r \<noteq> ?t \<longrightarrow> r \<in> set (request_queue q')"
    unfolding rq' using kept_set_granted by blast
  show ?thesis
    using row_effect_put[OF okq kept] has_request_set_granted[of ?rq ?t lm]
    by (simp add: m' t' rq')
qed

lemma LockRow_effect:
  assumes ok: "queue_ok (request_queue (row_queue m oi))"
    and eq: "LockRow m txn lm oo oi = (res, txn', m')"
  shows "row_effect (transaction_id txn) oi m m' \<and> transaction_id txn' = transaction_id txn
     \<and> (\<forall>u. res = Waits u
           \<longrightarrow> has_request (request_queue (row_queue m' oi)) (transaction_id txn) lm)"
proof (cases "LockRow_check txn lm oo")
  case (Some r)
  have nw: "\<forall>u. r \<noteq> Waits u"
    using Some by (auto simp: LockRow_check_def Let_def split: if_splits)
  from Some eq have "m' = m \<and> transaction_id txn' = transaction_id txn \<and> (\<forall>u. res \<noteq> Waits u)"
    using nw by (cases r) (auto simp: LockRow_def abort_with_def)
  then show ?thesis using row_effect_refl[OF ok] by simp
next
  case None
  let ?t = "transaction_id txn"
  let ?que = "row_queue m oi"
  let ?m1 = "put_row_queue m oi ?que"
  let ?lr = "\<lparr>txn_id = ?t, lock_mode = lm, oid = oo, rid = Some oi, granted = False\<rparr>"
  have e1: "row_effect ?t oi m ?m1" by (rule row_effect_put[OF ok]) simp
  show ?thesis
  proof (cases "find_txn (request_queue ?que) ?t")
    case fn: None
    let ?q1 = "?que\<lparr>request_queue := request_queue ?que @ [?lr]\<rparr>"
    let ?mi = "put_row_queue ?m1 oi ?q1"
    have eq': "LockRow_try ?mi txn lm oo oi False = (res, txn', m')"
      using eq None fn by (simp add: LockRow_def Let_def)
    have absent: "?t \<notin> txn_id ` set (request_queue ?que)" using fn by (simp add: find_txn_None)
    have ok1: "queue_ok (request_queue (row_queue ?mi oi))"
      using queue_ok_append[OF ok absent, of ?lr] by simp
    have own: "\<forall>r\<in>set (request_queue (row_queue ?mi oi)). txn_id r = ?t \<longrightarrow> lock_mode r = lm"
      using absent by (auto simp: image_iff)
    have e2: "row_effect ?t oi m ?mi"
      using ok1 by (simp add: row_effect_def)
    have hr: "has_request (request_queue (row_queue ?mi oi)) ?t lm"
      using has_request_append by simp
    from row_try_effect[OF ok1 own eq'] hr
    show ?thesis using row_effect_trans[OF e2] by blast
  next
    case (Some it)
    show ?thesis
    proof (cases "lock_mode it = lm \<or> (upgrading ?que \<noteq> INVALID_TXN_ID \<and> upgrading ?que \<noteq> ?t)
                  \<or> (lm \<noteq> EXCLUSIVE \<or> oi \<notin> shared_row_lock_set txn oo)")
      case True
      then have "m' = ?m1 \<and> transaction_id txn' = ?t \<and> (\<forall>u. res \<noteq> Waits u)"
        using eq None Some by (auto simp: LockRow_def Let_def abort_with_def split: if_splits)
      then show ?thesis using e1 by simp
    next
      case False
      let ?q1 = "?que\<lparr>upgrading := ?t, request_queue := erase_first (request_queue ?que) ?t @ [?lr]\<rparr>"
      let ?mi = "put_row_queue ?m1 oi ?q1"
      let ?txn1 = "RowLockRemove txn (lock_mode it) oo oi"
      have eq': "LockRow_try ?mi ?txn1 lm oo oi True = (res, txn', m')"
        using eq None Some False by (auto simp: LockRow_def Let_def)
      have d: "distinct (map txn_id (request_queue ?que))" using ok by (simp add: queue_ok_def)
      have absent: "?t \<notin> txn_id ` set (erase_first (request_queue ?que) ?t)"
        by (rule erase_first_gone[OF d])
      have ok0: "queue_ok (erase_first (request_queue ?que) ?t)"
        by (rule queue_ok_subset[OF ok set_erase_first distinct_erase_first[OF d]])
      have ok1: "queue_ok (request_queue (row_queue ?mi oi))"
        using queue_ok_append[OF ok0 absent, of ?lr] by simp
      have own: "\<forall>r\<in>set (request_queue (row_queue ?mi oi)).
                   txn_id r = transaction_id ?txn1 \<longrightarrow> lock_mode r = lm"
        using absent by (auto simp: image_iff)
      have e2: "row_effect ?t oi m ?mi"
        using ok1 kept_erase_first by (simp add: row_effect_def)
      have hr: "has_request (request_queue (row_queue ?mi oi)) (transaction_id ?txn1) lm"
        using has_request_append by simp
      from row_try_effect[OF ok1 own eq'] hr
      show ?thesis using row_effect_trans[OF e2] by simp
    qed
  qed
qed

lemma row_wake_effect:
  assumes ok: "queue_ok (request_queue (row_queue m oi))"
    and hr: "has_request (request_queue (row_queue m oi)) (transaction_id txn) lm"
    and eq: "LockRow_wake m txn lm oo oi up = (res, txn', m')"
  shows "row_effect (transaction_id txn) oi m m' \<and> transaction_id txn' = transaction_id txn
     \<and> (\<forall>u. res = Waits u
           \<longrightarrow> has_request (request_queue (row_queue m' oi)) (transaction_id txn) lm)"
proof (cases "txn_state txn = ABORTED")
  case True
  let ?rq = "request_queue (row_queue m oi)"
  let ?t = "transaction_id txn"
  define q' where "q' = (if upgrading (row_queue m oi) = ?t
      then (row_queue m oi)\<lparr>request_queue := erase_txn ?rq ?t, upgrading := INVALID_TXN_ID\<rparr>
      else (row_queue m oi)\<lparr>request_queue := erase_txn ?rq ?t\<rparr>)"
  have m': "m' = put_row_queue m oi q'"
    and t': "txn' = RowLockRemove_all txn ?rq ?t oi" and r: "res = Returns False"
    using eq True by (auto simp: LockRow_wake_def Let_def q'_def)
  have rq': "request_queue q' = erase_txn ?rq ?t" by (simp add: q'_def)
  have d: "distinct (map txn_id ?rq)" using ok by (simp add: queue_ok_def)
  have okq: "queue_ok (request_queue q')"
    unfolding rq' by (rule queue_ok_subset[OF ok _ distinct_erase_txn[OF d]]) (auto simp: set_erase_txn)
  have kept: "\<forall>r \<in> set ?rq. txn_id r \<noteq> ?t \<longrightarrow> r \<in> set (request_queue q')"
    unfolding rq' by (simp add: set_erase_txn)
  show ?thesis using row_effect_put[OF okq kept] by (simp add: m' t' r)
next
  case False
  then have eq': "LockRow_try m txn lm oo oi up = (res, txn', m')"
    using eq by (simp add: LockRow_wake_def Let_def)
  have w: "\<forall>u. res = Waits u \<longrightarrow> m' = m"
    using eq' by (auto simp: LockRow_try_def Let_def split: if_splits)
  from row_try_effect[OF ok own_from_has[OF ok hr] eq'] hr show ?thesis by blast
qed

lemma UnlockRow_effect:
  assumes ok: "queue_ok (request_queue (row_queue m oi))"
    and eq: "UnlockRow m txn oo oi = (res, txn', m')"
  shows "row_effect (transaction_id txn) oi m m' \<and> transaction_id txn' = transaction_id txn
     \<and> (\<forall>u. res \<noteq> Waits u)"
proof (cases "row_lock_map m oi")
  case None
  then show ?thesis using eq row_effect_refl[OF ok] by (auto simp: UnlockRow_def abort_with_def)
next
  case (Some que)
  then have tq: "row_queue m oi = que" by (simp add: row_queue_def)
  let ?t = "transaction_id txn"
  show ?thesis
  proof (cases "find_granted (request_queue que) ?t")
    case None
    then show ?thesis using eq Some row_effect_refl[OF ok]
      by (auto simp: UnlockRow_def abort_with_def Let_def split: if_splits)
  next
    case (Some it)
    define q' where "q' = (if upgrading que \<noteq> INVALID_TXN_ID \<and> upgrading que = ?t
        then que\<lparr>upgrading := INVALID_TXN_ID,
                 request_queue := erase_granted (request_queue que) ?t\<rparr>
        else que\<lparr>request_queue := erase_granted (request_queue que) ?t\<rparr>)"
    have m': "m' = put_row_queue m oi q'"
      and t': "transaction_id txn' = ?t" and r: "res = Returns True"
      using eq \<open>row_lock_map m oi = Some que\<close> Some
      by (auto simp: UnlockRow_def Let_def q'_def)
    have rq': "request_queue q' = erase_granted (request_queue que) ?t" by (simp add: q'_def)
    have d: "distinct (map txn_id (request_queue que))" using ok tq by (simp add: queue_ok_def)
    have okq: "queue_ok (request_queue q')"
      unfolding rq' using queue_ok_subset[OF _ set_erase_granted distinct_erase_granted[OF d]] ok tq
      by simp
    have kept: "\<forall>r \<in> set (request_queue (row_queue m oi)). txn_id r \<noteq> ?t \<longrightarrow> r \<in> set (request_queue q')"
      unfolding rq' tq using kept_erase_granted by blast
    show ?thesis using row_effect_put[OF okq kept] by (simp add: m' t' r)
  qed
qed


lemma inv_table_queue: "world_inv w \<Longrightarrow> queue_ok (request_queue (table_queue (lock_manager w) oi))"
  by (cases "table_lock_map (lock_manager w) oi")
     (auto simp: world_inv_def table_queue_def new_LockRequestQueue_def queue_ok_Nil)

lemma inv_row_queue: "world_inv w \<Longrightarrow> queue_ok (request_queue (row_queue (lock_manager w) ri))"
  by (cases "row_lock_map (lock_manager w) ri")
     (auto simp: world_inv_def row_queue_def new_LockRequestQueue_def queue_ok_Nil)

lemma table_queue_cong: "table_lock_map m' oi = table_lock_map m oi \<Longrightarrow> table_queue m' oi = table_queue m oi"
  by (simp add: table_queue_def)

lemma row_queue_cong: "row_lock_map m' ri = row_lock_map m ri \<Longrightarrow> row_queue m' ri = row_queue m ri"
  by (simp add: row_queue_def)

lemma has_request_kept:
  assumes "has_request rq t' lm" "\<forall>r \<in> set rq. txn_id r \<noteq> t \<longrightarrow> r \<in> set rq'" "t' \<noteq> t"
  shows "has_request rq' t' lm"
  using assms unfolding has_request_def by blast

lemma finish_table:
  assumes inv: "world_inv w" and eff: "table_effect t oi (lock_manager w) m'"
    and id: "transaction_id txn' = t"
    and wt: "\<forall>u. res = Waits u \<longrightarrow>
               (\<exists>lm. p u = WaitTable lm oi u \<and> has_request (request_queue (table_queue m' oi)) t lm)"
  shows "world_inv (finish w t p (res, txn', m'))"
proof -
  let ?m = "lock_manager w"
  let ?w' = "finish w t p (res, txn', m')"
  have rows: "row_lock_map m' = row_lock_map ?m"
    and others: "\<And>o'. o' \<noteq> oi \<Longrightarrow> table_lock_map m' o' = table_lock_map ?m o'"
    and okq: "queue_ok (request_queue (table_queue m' oi))"
    and kept: "\<forall>r \<in> set (request_queue (table_queue ?m oi)).
        txn_id r \<noteq> t \<longrightarrow> r \<in> set (request_queue (table_queue m' oi))"
    using eff by (simp_all add: table_effect_def)
  have c1: "\<forall>o' q. table_lock_map (lock_manager ?w') o' = Some q \<longrightarrow> queue_ok (request_queue q)"
  proof (intro allI impI)
    fix o' q assume q: "table_lock_map (lock_manager ?w') o' = Some q"
    show "queue_ok (request_queue q)"
    proof (cases "o' = oi")
      case True
      then have "table_queue m' oi = q" using q by (simp add: table_queue_def)
      then show ?thesis using okq by simp
    next
      case False
      then show ?thesis using q others inv by (simp add: world_inv_def)
    qed
  qed
  have c2: "\<forall>ri q. row_lock_map (lock_manager ?w') ri = Some q \<longrightarrow> queue_ok (request_queue q)"
    using rows inv by (simp add: world_inv_def)
  have c3: "\<forall>t'. transaction_id (txns ?w' t') = t'"
    using id inv by (simp add: world_inv_def)
  have c4: "\<forall>t' lm o' u. waiting ?w' t' = Some (WaitTable lm o' u)
         \<longrightarrow> has_request (request_queue (table_queue (lock_manager ?w') o')) t' lm"
  proof (intro allI impI)
    fix t' lm o' u assume a: "waiting ?w' t' = Some (WaitTable lm o' u)"
    show "has_request (request_queue (table_queue (lock_manager ?w') o')) t' lm"
    proof (cases "t' = t")
      case True
      then obtain u' where r: "res = Waits u'" and pu: "p u' = WaitTable lm o' u"
        using a by (cases res) simp_all
      from wt r obtain lm' where "p u' = WaitTable lm' oi u'"
          "has_request (request_queue (table_queue m' oi)) t lm'" by blast
      then show ?thesis using pu True by simp
    next
      case False
      then have "waiting w t' = Some (WaitTable lm o' u)" using a by simp
      then have h: "has_request (request_queue (table_queue ?m o')) t' lm"
        using inv unfolding world_inv_def by blast
      show ?thesis
      proof (cases "o' = oi")
        case True
        then show ?thesis using has_request_kept[OF _ kept False] h by simp
      next
        case False
        then show ?thesis using h table_queue_cong[OF others] by simp
      qed
    qed
  qed
  have c5: "\<forall>t' lm o' ri u. waiting ?w' t' = Some (WaitRow lm o' ri u)
         \<longrightarrow> has_request (request_queue (row_queue (lock_manager ?w') ri)) t' lm"
  proof (intro allI impI)
    fix t' lm o' ri u assume a: "waiting ?w' t' = Some (WaitRow lm o' ri u)"
    have nt: "t' \<noteq> t"
    proof
      assume "t' = t"
      then obtain u' where r: "res = Waits u'" and pu: "p u' = WaitRow lm o' ri u"
        using a by (cases res) simp_all
      from wt r obtain lm' where "p u' = WaitTable lm' oi u'" by blast
      then show False using pu by simp
    qed
    then have "waiting w t' = Some (WaitRow lm o' ri u)" using a by simp
    then have h: "has_request (request_queue (row_queue ?m ri)) t' lm"
      using inv unfolding world_inv_def by blast
    have "row_queue m' ri = row_queue ?m ri" using rows by (simp add: row_queue_def)
    then show "has_request (request_queue (row_queue (lock_manager ?w') ri)) t' lm"
      using h by simp
  qed
  show ?thesis unfolding world_inv_def using c1 c2 c3 c4 c5 by blast
qed

lemma finish_row:
  assumes inv: "world_inv w" and eff: "row_effect t ri (lock_manager w) m'"
    and id: "transaction_id txn' = t"
    and wt: "\<forall>u. res = Waits u \<longrightarrow>
               (\<exists>lm oo. p u = WaitRow lm oo ri u \<and> has_request (request_queue (row_queue m' ri)) t lm)"
  shows "world_inv (finish w t p (res, txn', m'))"
proof -
  let ?m = "lock_manager w"
  let ?w' = "finish w t p (res, txn', m')"
  have tabs: "table_lock_map m' = table_lock_map ?m"
    and others: "\<And>o'. o' \<noteq> ri \<Longrightarrow> row_lock_map m' o' = row_lock_map ?m o'"
    and okq: "queue_ok (request_queue (row_queue m' ri))"
    and kept: "\<forall>r \<in> set (request_queue (row_queue ?m ri)).
        txn_id r \<noteq> t \<longrightarrow> r \<in> set (request_queue (row_queue m' ri))"
    using eff by (simp_all add: row_effect_def)
  have c2: "\<forall>o' q. row_lock_map (lock_manager ?w') o' = Some q \<longrightarrow> queue_ok (request_queue q)"
  proof (intro allI impI)
    fix o' q assume q: "row_lock_map (lock_manager ?w') o' = Some q"
    show "queue_ok (request_queue q)"
    proof (cases "o' = ri")
      case True
      then have "row_queue m' ri = q" using q by (simp add: row_queue_def)
      then show ?thesis using okq by simp
    next
      case False
      then show ?thesis using q others inv by (simp add: world_inv_def)
    qed
  qed
  have c1: "\<forall>oi q. table_lock_map (lock_manager ?w') oi = Some q \<longrightarrow> queue_ok (request_queue q)"
    using tabs inv by (simp add: world_inv_def)
  have c3: "\<forall>t'. transaction_id (txns ?w' t') = t'"
    using id inv by (simp add: world_inv_def)
  have c5: "\<forall>t' lm oo o' u. waiting ?w' t' = Some (WaitRow lm oo o' u)
         \<longrightarrow> has_request (request_queue (row_queue (lock_manager ?w') o')) t' lm"
  proof (intro allI impI)
    fix t' lm oo o' u assume a: "waiting ?w' t' = Some (WaitRow lm oo o' u)"
    show "has_request (request_queue (row_queue (lock_manager ?w') o')) t' lm"
    proof (cases "t' = t")
      case True
      then obtain u' where r: "res = Waits u'" and pu: "p u' = WaitRow lm oo o' u"
        using a by (cases res) simp_all
      from wt r obtain lm' oo' where "p u' = WaitRow lm' oo' ri u'"
          "has_request (request_queue (row_queue m' ri)) t lm'" by blast
      then show ?thesis using pu True by simp
    next
      case False
      then have "waiting w t' = Some (WaitRow lm oo o' u)" using a by simp
      then have h: "has_request (request_queue (row_queue ?m o')) t' lm"
        using inv unfolding world_inv_def by blast
      show ?thesis
      proof (cases "o' = ri")
        case True
        then show ?thesis using has_request_kept[OF _ kept False] h by simp
      next
        case False
        then show ?thesis using h row_queue_cong[OF others] by simp
      qed
    qed
  qed
  have c4: "\<forall>t' lm o' u. waiting ?w' t' = Some (WaitTable lm o' u)
         \<longrightarrow> has_request (request_queue (table_queue (lock_manager ?w') o')) t' lm"
  proof (intro allI impI)
    fix t' lm o' u assume a: "waiting ?w' t' = Some (WaitTable lm o' u)"
    have nt: "t' \<noteq> t"
    proof
      assume "t' = t"
      then obtain u' where r: "res = Waits u'" and pu: "p u' = WaitTable lm o' u"
        using a by (cases res) simp_all
      from wt r obtain lm' oo' where "p u' = WaitRow lm' oo' ri u'" by blast
      then show False using pu by simp
    qed
    then have "waiting w t' = Some (WaitTable lm o' u)" using a by simp
    then have h: "has_request (request_queue (table_queue ?m o')) t' lm"
      using inv unfolding world_inv_def by blast
    have "table_queue m' o' = table_queue ?m o'" using tabs by (simp add: table_queue_def)
    then show "has_request (request_queue (table_queue (lock_manager ?w') o')) t' lm"
      using h by simp
  qed
  show ?thesis unfolding world_inv_def using c1 c2 c3 c4 c5 by blast
qed

lemma try_Waits: "LockTable_try m txn lm oi up = (Waits u, txn', m') \<Longrightarrow> u = up"
  by (auto simp: LockTable_try_def Let_def split: if_splits)

lemma wake_Waits: "LockTable_wake m txn lm oi up = (Waits u, txn', m') \<Longrightarrow> u = up"
  by (auto simp: LockTable_wake_def Let_def dest: try_Waits split: if_splits)

lemma row_try_Waits: "LockRow_try m txn lm oo ri up = (Waits u, txn', m') \<Longrightarrow> u = up"
  by (auto simp: LockRow_try_def Let_def split: if_splits)

lemma row_wake_Waits: "LockRow_wake m txn lm oo ri up = (Waits u, txn', m') \<Longrightarrow> u = up"
  by (auto simp: LockRow_wake_def Let_def dest: row_try_Waits split: if_splits)

lemma step_inv:
  assumes "step w w'" "world_inv w"
  shows "world_inv w'"
  using assms
proof (cases rule: step.cases)
  case (lock_table t lm oi)
  obtain res txn' m' where eq: "LockTable (lock_manager w) (txns w t) lm oi = (res, txn', m')"
    by (cases "LockTable (lock_manager w) (txns w t) lm oi") auto
  have id: "transaction_id (txns w t) = t" using assms(2) by (simp add: world_inv_def)
  from LockTable_effect[OF inv_table_queue[OF assms(2)] eq]
  show ?thesis unfolding lock_table(1) do_lock_table_def eq
    by (intro finish_table[OF assms(2), where oi = oi]) (auto simp: id)
next
  case (wake_table t lm oi u)
  obtain res txn' m' where eq: "LockTable_wake (lock_manager w) (txns w t) lm oi u = (res, txn', m')"
    by (cases "LockTable_wake (lock_manager w) (txns w t) lm oi u") auto
  have id: "transaction_id (txns w t) = t" using assms(2) by (simp add: world_inv_def)
  have hr: "has_request (request_queue (table_queue (lock_manager w) oi)) (transaction_id (txns w t)) lm"
    using assms(2) wake_table(2) id unfolding world_inv_def by metis
  from wake_effect[OF inv_table_queue[OF assms(2)] hr eq]
  show ?thesis unfolding wake_table(1) do_wake_table_def eq
    by (intro finish_table[OF assms(2), where oi = oi]) (auto simp: id)
next
  case (unlock_table t oi)
  obtain res txn' m' where eq: "UnlockTable (lock_manager w) (txns w t) oi = (res, txn', m')"
    by (cases "UnlockTable (lock_manager w) (txns w t) oi") auto
  have id: "transaction_id (txns w t) = t" using assms(2) by (simp add: world_inv_def)
  from Unlock_effect[OF inv_table_queue[OF assms(2)] eq]
  show ?thesis unfolding unlock_table(1) do_unlock_table_def eq
    by (intro finish_table[OF assms(2), where oi = oi]) (auto simp: id)
next
  case (lock_row t lm oi ri)
  obtain res txn' m' where eq: "LockRow (lock_manager w) (txns w t) lm oi ri = (res, txn', m')"
    by (cases "LockRow (lock_manager w) (txns w t) lm oi ri") auto
  have id: "transaction_id (txns w t) = t" using assms(2) by (simp add: world_inv_def)
  from LockRow_effect[OF inv_row_queue[OF assms(2)] eq]
  show ?thesis unfolding lock_row(1) do_lock_row_def eq
    by (intro finish_row[OF assms(2), where ri = ri]) (auto simp: id)
next
  case (wake_row t lm oi ri u)
  obtain res txn' m' where eq: "LockRow_wake (lock_manager w) (txns w t) lm oi ri u = (res, txn', m')"
    by (cases "LockRow_wake (lock_manager w) (txns w t) lm oi ri u") auto
  have id: "transaction_id (txns w t) = t" using assms(2) by (simp add: world_inv_def)
  have hr: "has_request (request_queue (row_queue (lock_manager w) ri)) (transaction_id (txns w t)) lm"
    using assms(2) wake_row(2) id unfolding world_inv_def by metis
  from row_wake_effect[OF inv_row_queue[OF assms(2)] hr eq]
  show ?thesis unfolding wake_row(1) do_wake_row_def eq
    by (intro finish_row[OF assms(2), where ri = ri]) (auto simp: id)
next
  case (unlock_row t oi ri)
  obtain res txn' m' where eq: "UnlockRow (lock_manager w) (txns w t) oi ri = (res, txn', m')"
    by (cases "UnlockRow (lock_manager w) (txns w t) oi ri") auto
  have id: "transaction_id (txns w t) = t" using assms(2) by (simp add: world_inv_def)
  from UnlockRow_effect[OF inv_row_queue[OF assms(2)] eq]
  show ?thesis unfolding unlock_row(1) do_unlock_row_def eq
    by (intro finish_row[OF assms(2), where ri = ri]) (auto simp: id)
next
  case (set_state t s)
  then show ?thesis using assms(2) by (simp add: world_inv_def do_set_state_def)
qed

lemma initial_inv: "world_inv (initial_world lvl)"
  by (simp add: world_inv_def initial_world_def new_Transaction_def)

lemma reachable_inv: "reachable w \<Longrightarrow> world_inv w"
  by (induction rule: reachable.induct) (auto intro: initial_inv step_inv)

lemma queue_ok_compatible: "queue_ok rq \<Longrightarrow> granted_compatible rq"
  unfolding granted_compatible_def
proof (intro allI impI)
  fix i j assume ok: "queue_ok rq" and i: "i < length rq" and j: "j < length rq"
    and h: "i \<noteq> j \<and> granted (rq ! i) \<and> granted (rq ! j)"
  have d: "distinct (map txn_id rq)" using ok by (simp add: queue_ok_def)
  have "txn_id (rq ! i) \<noteq> txn_id (rq ! j)"
    using nth_eq_iff_index_eq[OF d, of i j] i j h by simp
  then have "CheckLock (lock_mode (rq ! i)) (lock_mode (rq ! j))"
    using ok i j h unfolding queue_ok_def by (meson nth_mem)
  then show "\<not> conflicts (lock_mode (rq ! i)) (lock_mode (rq ! j))"
    by (simp add: CheckLock_conflicts)
qed

lemmas lock_eval_defs =
  do_lock_table_def do_wake_table_def do_lock_row_def do_set_state_def
  initial_world_def new_Transaction_def LockTable_def LockTable_check_def LockTable_try_def
  LockTable_wake_def LockRow_def LockRow_check_def LockRow_try_def UnlockTable_def
  incompatible_upgrade_def is_locked_def
  GrantLock_def CheckLock_def table_queue_def row_queue_def put_table_queue_def put_row_queue_def
  new_LockRequestQueue_def INVALID_TXN_ID_def abort_with_def Let_def

lemma two_holders_queue:
  "table_lock_map (lock_manager two_holders) 7 =
     Some \<lparr>request_queue =
        [\<lparr>txn_id = 1, lock_mode = INTENTION_SHARED, oid = 7, rid = None, granted = True\<rparr>,
         \<lparr>txn_id = 2, lock_mode = INTENTION_EXCLUSIVE, oid = 7, rid = None, granted = True\<rparr>],
        upgrading = - 1\<rparr>"
  by (simp add: two_holders_def lock_eval_defs)

lemma two_holders_reachable: "reachable two_holders"
  unfolding two_holders_def
  by (intro next_step[OF _ lock_table] start)
     (simp_all add: lock_eval_defs)

text \<open>
  C5. In every state the lock manager reaches from the empty one, by calls of
  \<open>LockTable\<close>, \<open>UnlockTable\<close>, \<open>LockRow\<close>, \<open>UnlockRow\<close> of any transactions, interleaved at
  the waits on the condition variable, and by state changes made from outside (commit,
  abort, the deadlock detector), the granted requests of each table queue and of each row
  queue are pairwise compatible: no two requests of the queue, at different positions,
  are both granted with modes that the compatibility matrix (\<open>conflicts\<close>) forbids.
\<close>

theorem C5_granted_compatible:
  assumes "reachable w"
  shows "(\<forall>oi q. table_lock_map (lock_manager w) oi = Some q
            \<longrightarrow> granted_compatible (request_queue q))
       \<and> (\<forall>ri q. row_lock_map (lock_manager w) ri = Some q
            \<longrightarrow> granted_compatible (request_queue q))"
  using reachable_inv[OF assms] queue_ok_compatible unfolding world_inv_def by blast

theorem C5_granted_compatible_witness:
  "reachable two_holders \<and>
   (\<exists>q. table_lock_map (lock_manager two_holders) 7 = Some q \<and>
        map granted (request_queue q) = [True, True] \<and>
        granted_compatible (request_queue q))"
  using C5_granted_compatible[OF two_holders_reachable, THEN conjunct1, rule_format,
      OF two_holders_queue] two_holders_reachable
  by (simp add: two_holders_queue)

section \<open>Lock manager: the errors of UnlockTable\<close>

lemma au1:
  "waiting aborted_upgrade_1 t = None"
  "txns aborted_upgrade_1 2 = new_Transaction 2 REPEATABLE_READ"
  "txns aborted_upgrade_1 1 = (new_Transaction 1 REPEATABLE_READ)
      \<lparr>intention_exclusive_table_lock_set := {7}\<rparr>"
  "lock_manager aborted_upgrade_1 = \<lparr>table_lock_map = [7 \<mapsto> \<lparr>request_queue =
        [\<lparr>txn_id = 1, lock_mode = INTENTION_EXCLUSIVE, oid = 7, rid = None, granted = True\<rparr>],
        upgrading = - 1\<rparr>], row_lock_map = Map.empty\<rparr>"
  by (simp_all add: aborted_upgrade_1_def lock_eval_defs)

lemma au2:
  "waiting aborted_upgrade_2 t = None"
  "txns aborted_upgrade_2 2 = new_Transaction 2 REPEATABLE_READ"
  "txns aborted_upgrade_2 1 = (new_Transaction 1 REPEATABLE_READ)
      \<lparr>intention_exclusive_table_lock_set := {7}, exclusive_row_lock_set := (\<lambda>_. {})(7 := {3})\<rparr>"
  "lock_manager aborted_upgrade_2 = \<lparr>table_lock_map = [7 \<mapsto> \<lparr>request_queue =
        [\<lparr>txn_id = 1, lock_mode = INTENTION_EXCLUSIVE, oid = 7, rid = None, granted = True\<rparr>],
        upgrading = - 1\<rparr>], row_lock_map = [3 \<mapsto> \<lparr>request_queue =
        [\<lparr>txn_id = 1, lock_mode = EXCLUSIVE, oid = 7, rid = Some 3, granted = True\<rparr>],
        upgrading = - 1\<rparr>]\<rparr>"
  by (simp_all add: aborted_upgrade_2_def au1 lock_eval_defs fun_eq_iff)


lemma au3:
  "waiting aborted_upgrade_3 t = None"
  "txns aborted_upgrade_3 1 = (new_Transaction 1 REPEATABLE_READ)
      \<lparr>intention_exclusive_table_lock_set := {7}, exclusive_row_lock_set := (\<lambda>_. {})(7 := {3})\<rparr>"
  "lock_manager aborted_upgrade_3 = \<lparr>table_lock_map = [7 \<mapsto> \<lparr>request_queue =
        [\<lparr>txn_id = 1, lock_mode = INTENTION_EXCLUSIVE, oid = 7, rid = None, granted = True\<rparr>,
         \<lparr>txn_id = 2, lock_mode = INTENTION_SHARED, oid = 7, rid = None, granted = True\<rparr>],
        upgrading = - 1\<rparr>], row_lock_map = [3 \<mapsto> \<lparr>request_queue =
        [\<lparr>txn_id = 1, lock_mode = EXCLUSIVE, oid = 7, rid = Some 3, granted = True\<rparr>],
        upgrading = - 1\<rparr>]\<rparr>"
  by (simp_all add: aborted_upgrade_3_def au2 lock_eval_defs fun_eq_iff)

lemma au4:
  "waiting aborted_upgrade_4 1 = Some (WaitTable EXCLUSIVE 7 True)"
  "txns aborted_upgrade_4 1 = (new_Transaction 1 REPEATABLE_READ)
      \<lparr>exclusive_row_lock_set := (\<lambda>_. {})(7 := {3})\<rparr>"
  "lock_manager aborted_upgrade_4 = \<lparr>table_lock_map = [7 \<mapsto> \<lparr>request_queue =
        [\<lparr>txn_id = 2, lock_mode = INTENTION_SHARED, oid = 7, rid = None, granted = True\<rparr>,
         \<lparr>txn_id = 1, lock_mode = EXCLUSIVE, oid = 7, rid = None, granted = False\<rparr>],
        upgrading = 1\<rparr>], row_lock_map = [3 \<mapsto> \<lparr>request_queue =
        [\<lparr>txn_id = 1, lock_mode = EXCLUSIVE, oid = 7, rid = Some 3, granted = True\<rparr>],
        upgrading = - 1\<rparr>]\<rparr>"
  by (simp_all add: aborted_upgrade_4_def au3 lock_eval_defs fun_eq_iff)

lemma au5:
  "waiting aborted_upgrade_5 1 = Some (WaitTable EXCLUSIVE 7 True)"
  "txns aborted_upgrade_5 1 = (new_Transaction 1 REPEATABLE_READ)
      \<lparr>txn_state := ABORTED, exclusive_row_lock_set := (\<lambda>_. {})(7 := {3})\<rparr>"
  "lock_manager aborted_upgrade_5 = lock_manager aborted_upgrade_4"
  by (simp_all add: aborted_upgrade_5_def au4 lock_eval_defs fun_eq_iff)

lemma au6:
  "txns aborted_upgrade 1 = (new_Transaction 1 REPEATABLE_READ)
      \<lparr>txn_state := ABORTED, exclusive_row_lock_set := (\<lambda>_. {})(7 := {3})\<rparr>"
  "lock_manager aborted_upgrade = \<lparr>table_lock_map = [7 \<mapsto> \<lparr>request_queue =
        [\<lparr>txn_id = 2, lock_mode = INTENTION_SHARED, oid = 7, rid = None, granted = True\<rparr>],
        upgrading = - 1\<rparr>], row_lock_map = [3 \<mapsto> \<lparr>request_queue =
        [\<lparr>txn_id = 1, lock_mode = EXCLUSIVE, oid = 7, rid = Some 3, granted = True\<rparr>],
        upgrading = - 1\<rparr>]\<rparr>"
  by (simp_all add: aborted_upgrade_def au5 au4 lock_eval_defs fun_eq_iff)

lemma aborted_upgrade_reachable: "reachable aborted_upgrade"
proof -
  have 1: "reachable aborted_upgrade_1" unfolding aborted_upgrade_1_def
    by (intro next_step[OF _ lock_table] start) (simp add: initial_world_def)
  have 2: "reachable aborted_upgrade_2" unfolding aborted_upgrade_2_def
    by (intro next_step[OF 1 lock_row]) (simp add: au1)
  have 3: "reachable aborted_upgrade_3" unfolding aborted_upgrade_3_def
    by (intro next_step[OF 2 lock_table]) (simp add: au2)
  have 4: "reachable aborted_upgrade_4" unfolding aborted_upgrade_4_def
    by (intro next_step[OF 3 lock_table]) (simp add: au3)
  have 5: "reachable aborted_upgrade_5" unfolding aborted_upgrade_5_def
    by (intro next_step[OF 4 set_state])
  show ?thesis unfolding aborted_upgrade_def
    by (intro next_step[OF 5 wake_table]) (simp add: au5)
qed

text \<open>
  C9, the claim as stated fails. In the reachable world \<open>aborted_upgrade\<close> transaction 1
  holds no lock on table 7 (no granted request in the queue of the table, the table in none
  of its five table lock sets) and still holds the X lock on row 3 of that table.
  \<open>UnlockTable\<close> tests the row lock sets before it looks for the granted request, so the
  call fails with \<open>TABLE_UNLOCKED_BEFORE_UNLOCKING_ROWS\<close>, not with
  \<open>ATTEMPTED_UNLOCK_BUT_NO_LOCK_HELD\<close>.
\<close>

theorem C9_counterexample:
  "reachable aborted_upgrade \<and>
   find_granted (request_queue (table_queue (lock_manager aborted_upgrade) 7)) 1 = None \<and>
   \<not> is_locked (txns aborted_upgrade 1) SHARED 7 \<and>
   \<not> is_locked (txns aborted_upgrade 1) EXCLUSIVE 7 \<and>
   \<not> is_locked (txns aborted_upgrade 1) INTENTION_SHARED 7 \<and>
   \<not> is_locked (txns aborted_upgrade 1) INTENTION_EXCLUSIVE 7 \<and>
   \<not> is_locked (txns aborted_upgrade 1) SHARED_INTENTION_EXCLUSIVE 7 \<and>
   fst (UnlockTable (lock_manager aborted_upgrade) (txns aborted_upgrade 1) 7)
     = Throws TABLE_UNLOCKED_BEFORE_UNLOCKING_ROWS \<and>
   fst (UnlockTable (lock_manager aborted_upgrade) (txns aborted_upgrade 1) 7)
     \<noteq> Throws ATTEMPTED_UNLOCK_BUT_NO_LOCK_HELD"
  using aborted_upgrade_reachable
  by (simp add: au6 lock_eval_defs)

text \<open>
  C9, amended. \<open>UnlockTable\<close> fails with \<open>TABLE_UNLOCKED_BEFORE_UNLOCKING_ROWS\<close> when the
  table has a lock request queue and the transaction still holds a row lock (shared or
  exclusive) on the table. It fails with \<open>ATTEMPTED_UNLOCK_BUT_NO_LOCK_HELD\<close> when the
  table has no queue, or when the transaction holds no row lock on the table and has no
  granted request in the queue of the table. In each case the state of the transaction is
  \<open>ABORTED\<close> when the error surfaces, and nothing else changes.
\<close>

theorem C9_unlock_table_errors:
  "(table_lock_map m oi \<noteq> None \<and>
      (exclusive_row_lock_set txn oi \<noteq> {} \<or> shared_row_lock_set txn oi \<noteq> {}) \<longrightarrow>
      UnlockTable m txn oi =
        (Throws TABLE_UNLOCKED_BEFORE_UNLOCKING_ROWS, txn\<lparr>txn_state := ABORTED\<rparr>, m)) \<and>
   (table_lock_map m oi = None \<or>
      (exclusive_row_lock_set txn oi = {} \<and> shared_row_lock_set txn oi = {} \<and>
       find_granted (request_queue (table_queue m oi)) (transaction_id txn) = None) \<longrightarrow>
      UnlockTable m txn oi =
        (Throws ATTEMPTED_UNLOCK_BUT_NO_LOCK_HELD, txn\<lparr>txn_state := ABORTED\<rparr>, m))"
  by (auto simp: UnlockTable_def abort_with_def table_queue_def Let_def split: option.splits)

theorem C9_unlock_table_errors_witness:
  "table_lock_map (lock_manager aborted_upgrade) 7 \<noteq> None \<and>
   exclusive_row_lock_set (txns aborted_upgrade 1) 7 = {3} \<and>
   UnlockTable (lock_manager aborted_upgrade) (txns aborted_upgrade 1) 7 =
     (Throws TABLE_UNLOCKED_BEFORE_UNLOCKING_ROWS,
      (txns aborted_upgrade 1)\<lparr>txn_state := ABORTED\<rparr>, lock_manager aborted_upgrade) \<and>
   table_lock_map (lock_manager aborted_upgrade) 8 = None \<and>
   UnlockTable (lock_manager aborted_upgrade) (txns aborted_upgrade 1) 8 =
     (Throws ATTEMPTED_UNLOCK_BUT_NO_LOCK_HELD,
      (txns aborted_upgrade 1)\<lparr>txn_state := ABORTED\<rparr>, lock_manager aborted_upgrade) \<and>
   find_granted (request_queue (table_queue (lock_manager aborted_upgrade) 7)) 2 = Some
      \<lparr>txn_id = 2, lock_mode = INTENTION_SHARED, oid = 7, rid = None, granted = True\<rparr> \<and>
   find_granted (request_queue (table_queue (lock_manager aborted_upgrade) 7)) 3 = None \<and>
   UnlockTable (lock_manager aborted_upgrade) (new_Transaction 3 REPEATABLE_READ) 7 =
     (Throws ATTEMPTED_UNLOCK_BUT_NO_LOCK_HELD,
      (new_Transaction 3 REPEATABLE_READ)\<lparr>txn_state := ABORTED\<rparr>, lock_manager aborted_upgrade)"
  using C9_unlock_table_errors[of "lock_manager aborted_upgrade" 7 "txns aborted_upgrade 1"]
    C9_unlock_table_errors[of "lock_manager aborted_upgrade" 8 "txns aborted_upgrade 1"]
    C9_unlock_table_errors[of "lock_manager aborted_upgrade" 7 "new_Transaction 3 REPEATABLE_READ"]
  by (simp add: au6 table_queue_def new_Transaction_def)

section \<open>Lock manager: the victim of the deadlock detector\<close>

lemma tail_graph_eq: "tail_graph = [(1, [4]), (2, [3]), (3, [2]), (4, [2])]"
  by (simp add: tail_graph_def AddEdge_def)

lemma diamond_graph_eq: "diamond_graph = [(1, [2, 3]), (2, [3])]"
  by (simp add: diamond_graph_def AddEdge_def)

lemmas cycle_eval_defs =
  HasCycle_def first_key_def next_key_def map_get_def uset_emplace_def Let_def

lemma tail_graph_HasCycle:
  "HasCycle (Suc (Suc (Suc (Suc (Suc n))))) tail_graph = Some (True, Some 4, tail_graph)"
  by (simp add: tail_graph_eq cycle_eval_defs)

lemma tail_graph_edges: "edges tail_graph = {(1, 4), (4, 2), (2, 3), (3, 2)}"
  by (auto simp: edges_def tail_graph_eq map_get_def split: if_splits)

lemma tail_graph_paths:
  "(edges tail_graph)\<^sup>+ \<subseteq> {1} \<times> {4, 2, 3} \<union> {4, 2, 3} \<times> {2, 3}"
proof -
  let ?T = "{1} \<times> {4, 2, 3} \<union> {4, 2, 3} \<times> {2, 3} :: (int \<times> int) set"
  have "trans ?T" by (auto simp: trans_def)
  moreover have "edges tail_graph \<subseteq> ?T" by (simp add: tail_graph_edges)
  ultimately show ?thesis by (metis trancl_id trancl_mono subsetI)
qed

lemma tail_graph_cycle: "on_cycle tail_graph t \<longleftrightarrow> t = 2 \<or> t = 3"
proof
  assume "on_cycle tail_graph t"
  then have "(t, t) \<in> {1} \<times> {4, 2, 3} \<union> {4, 2, 3} \<times> {2, 3}"
    using tail_graph_paths unfolding on_cycle_def by blast
  then show "t = 2 \<or> t = 3" by auto
next
  have a: "(2, 3) \<in> edges tail_graph" and b: "(3, 2) \<in> edges tail_graph"
    by (simp_all add: tail_graph_edges)
  assume "t = 2 \<or> t = 3"
  then show "on_cycle tail_graph t" unfolding on_cycle_def
    using a b by (auto intro: trancl_into_trancl r_into_trancl)
qed

lemma diamond_graph_HasCycle:
  "HasCycle (Suc (Suc (Suc (Suc (Suc n))))) diamond_graph
     = Some (True, Some 3, [(1, [2, 3]), (2, [3]), (3, [])])"
  by (simp add: diamond_graph_eq cycle_eval_defs)

lemma diamond_graph_edges: "edges diamond_graph = {(1, 2), (1, 3), (2, 3)}"
  by (auto simp: edges_def diamond_graph_eq map_get_def split: if_splits)

lemma diamond_graph_acyclic: "\<not> on_cycle diamond_graph t"
proof -
  let ?T = "{(1, 2), (1, 3), (2, 3)} :: (int \<times> int) set"
  have "trans ?T" by (auto simp: trans_def)
  then have "(edges diamond_graph)\<^sup>+ = ?T" by (simp add: diamond_graph_edges)
  then show ?thesis by (auto simp: on_cycle_def)
qed

lemma tail_graph_from_queues: "CreateGraph [] tail_queues [] = tail_graph"
  by (simp add: CreateGraph_def CreateGraph_queue_def tail_queues_def x_queue_def
      tail_graph_def)

text \<open>
  C4, the code differs. \<open>HasCycle\<close> takes the largest id of \<open>txn_set\<close>, and \<open>txn_set\<close> holds
  every transaction the depth-first search has visited since it started from the current
  key of the map, on the cycle or not. In \<open>tail_graph\<close> the only cycle is between
  transactions 2 and 3, the search starts at 1 and passes 4 on its way, and the victim is
  4, which is on no cycle. The test \<open>txn_set.count(it) > 0\<close> also holds for a transaction
  whose search has finished: in \<open>diamond_graph\<close>, which has no cycle at all, \<open>HasCycle\<close>
  returns true with victim 3. Both results hold for every depth bound from 5 on.
\<close>

theorem C4_victim_outside_cycle:
  "HasCycle (5 + n) tail_graph = Some (True, Some 4, tail_graph) \<and>
   \<not> on_cycle tail_graph 4 \<and>
   {t. on_cycle tail_graph t} = {2, 3} \<and>
   HasCycle (5 + n) diamond_graph = Some (True, Some 3, [(1, [2, 3]), (2, [3]), (3, [])]) \<and>
   {t. on_cycle diamond_graph t} = {}"
proof -
  have s: "5 + n = Suc (Suc (Suc (Suc (Suc n))))" by simp
  show ?thesis
    unfolding s tail_graph_HasCycle diamond_graph_HasCycle
    by (auto simp: tail_graph_cycle diamond_graph_acyclic)
qed

section \<open>Aggregation executor: empty input\<close>

lemma empty_values_eq:
  "i + length ts \<le> length schema \<Longrightarrow>
   empty_values ts schema i =
     Some (map (\<lambda>j. if ts ! j = CountStarAggregate then Val INTEGER 0 else Null (schema ! (i + j)))
            [0..<length ts])"
proof (induction ts arbitrary: i)
  case Nil
  then show ?case by simp
next
  case (Cons t ts)
  have "i + 1 + length ts \<le> length schema" using Cons.prems by simp
  from Cons.IH[of "Suc i"] this
  have ih: "empty_values ts schema (Suc i) =
     Some (map (\<lambda>j. if ts ! j = CountStarAggregate then Val INTEGER 0 else Null (schema ! (Suc i + j)))
            [0..<length ts])" by simp
  have il: "i < length schema" using Cons.prems by simp
  have up: "[0..<length (t # ts)] = 0 # map Suc [0..<length ts]"
    by (simp add: upt_conv_Cons map_Suc_upt del: upt_Suc)
  show ?case unfolding up
    by (cases t) (simp_all add: ih il comp_def)
qed

lemma Next_empty:
  assumes "group_bys plan = []" "length (agg_types plan) \<le> length (output_schema plan)"
    "\<not> finished ex" "aht ex = []" "aht_iterator ex = 0"
  shows "Next plan ex = (Row (empty_row plan), ex\<lparr>finished := True\<rparr>)"
  using assms empty_values_eq[of 0 "agg_types plan" "output_schema plan"]
  by (simp add: Next_def empty_row_def)

lemma Next_done:
  assumes "finished ex" "aht ex = []" "aht_iterator ex = 0"
  shows "Next plan ex = (NoRow, ex)"
  using assms by (simp add: Next_def)

text \<open>
  C8. A new aggregation executor whose child produces no tuples, initialised and then read
  with \<open>Next\<close> until it returns false. Without group-by columns (and with an output
  schema that has a column for each aggregate) it emits exactly one row, of one value per
  aggregate: the integer 0 where the aggregate is \<open>CountStarAggregate\<close>, a null
  everywhere else. With group-by columns it emits no row.
\<close>

theorem C8_empty_input:
  "(group_bys plan = [] \<and> length (agg_types plan) \<le> length (output_schema plan) \<longrightarrow>
      emitted (Suc (Suc n)) plan (Init ic [] AggregationExecutor_new) = Some [empty_row plan] \<and>
      length (empty_row plan) = length (agg_types plan) \<and>
      (\<forall>i < length (agg_types plan).
         if agg_types plan ! i = CountStarAggregate then empty_row plan ! i = Val INTEGER 0
         else IsNull (empty_row plan ! i))) \<and>
   (group_bys plan \<noteq> [] \<longrightarrow>
      emitted (Suc n) plan (Init ic [] AggregationExecutor_new) = Some [])"
proof -
  let ?ex = "Init ic [] AggregationExecutor_new"
  have st: "\<not> finished ?ex" "aht ?ex = []" "aht_iterator ?ex = 0"
    by (simp_all add: Init_def AggregationExecutor_new_def)
  have a: "emitted (Suc (Suc n)) plan ?ex = Some [empty_row plan]"
    if "group_bys plan = []" "length (agg_types plan) \<le> length (output_schema plan)"
    using Next_empty[OF that st] Next_done[of "?ex\<lparr>finished := True\<rparr>" plan] st
    by simp
  have b: "\<forall>i < length (agg_types plan).
         if agg_types plan ! i = CountStarAggregate then empty_row plan ! i = Val INTEGER 0
         else IsNull (empty_row plan ! i)"
    by (simp add: empty_row_def)
  have c: "emitted (Suc n) plan ?ex = Some []" if "group_bys plan \<noteq> []"
    using that st by (simp add: Next_def)
  show ?thesis using a b c by (simp add: empty_row_def)
qed

theorem C8_empty_input_witness:
  "emitted 2 three_aggregates (Init (\<lambda>t h. h @ [([], t)]) [] AggregationExecutor_new)
     = Some [[Val INTEGER 0, Null INTEGER, Null VARCHAR]] \<and>
   emitted 5 three_aggregates (Init (\<lambda>t h. h @ [([], t)]) [] AggregationExecutor_new)
     = Some [[Val INTEGER 0, Null INTEGER, Null VARCHAR]] \<and>
   emitted 1 grouped_aggregates (Init (\<lambda>t h. h @ [([], t)]) [] AggregationExecutor_new) = Some []"
  using C8_empty_input[of three_aggregates 0 "\<lambda>t h. h @ [([], t)]"]
    C8_empty_input[of three_aggregates 3 "\<lambda>t h. h @ [([], t)]"]
    C8_empty_input[of grouped_aggregates 0 "\<lambda>t h. h @ [([], t)]"]
  by (simp add: three_aggregates_def grouped_aggregates_def empty_row_def eval_nat_numeral
      upt_conv_Cons del: upt_Suc)


end
